theory Spec2Isabelle
  imports Main
begin

section \<open>Errors\<close>

text \<open>
  Go's \<^verbatim>\<open>error\<close> values. The three sentinels of \<^verbatim>\<open>cron.go\<close>
  (\<^verbatim>\<open>ErrSkipped\<close>, \<^verbatim>\<open>ErrNotFound\<close>, \<^verbatim>\<open>ErrDuplicate\<close>) are
  distinct values; \<open>ErrOther\<close> is any other error that wraps nothing (a business failure,
  a parse error); \<open>ErrWrap msg e\<close> is the result of \<^verbatim>\<open>fmt.Errorf\<close> with one
  \<^verbatim>\<open>%w\<close> verb: its text is \<open>msg\<close> and \<^verbatim>\<open>Unwrap\<close> gives \<open>e\<close>.
  The nil error is \<open>None\<close> of \<open>error option\<close>.
\<close>

datatype error =
    ErrSkipped
  | ErrNotFound
  | ErrDuplicate
  | ErrOther string
  | ErrWrap string error

fun Error :: "error \<Rightarrow> string" where
  "Error ErrSkipped = ''skipped''"
| "Error ErrNotFound = ''job not found''"
| "Error ErrDuplicate = ''duplicate cron name''"
| "Error (ErrOther msg) = msg"
| "Error (ErrWrap msg e) = msg"

text \<open>
  \<^verbatim>\<open>errors.Is(err, target)\<close>: walk the \<^verbatim>\<open>Unwrap\<close> chain of \<open>err\<close> and
  compare each link with the target; a nil error matches no non-nil target.
\<close>

fun errors_Is_chain :: "error \<Rightarrow> error \<Rightarrow> bool" where
  "errors_Is_chain (ErrWrap msg e) target = (ErrWrap msg e = target \<or> errors_Is_chain e target)"
| "errors_Is_chain e target = (e = target)"

definition errors_Is :: "error option \<Rightarrow> error \<Rightarrow> bool" where
  "errors_Is err target = (case err of None \<Rightarrow> False | Some e \<Rightarrow> errors_Is_chain e target)"

section \<open>Time\<close>

text \<open>
  A \<^verbatim>\<open>time.Time\<close> is the reading of the process clock in nanoseconds, \<open>0\<close> for
  the zero time; a \<^verbatim>\<open>time.Duration\<close> is a difference of two readings.
  \<^verbatim>\<open>time.Now()\<close> is an input of the program: the clock is the sequence of the
  readings it will return, and a counter of the readings taken so far.
\<close>

type_synonym time = int
type_synonym Duration = int

record Clock =
  readings :: "nat \<Rightarrow> time"
  taken :: nat

definition time_Now :: "Clock \<Rightarrow> time \<times> Clock" where
  "time_Now clk = (readings clk (taken clk), clk\<lparr>taken := Suc (taken clk)\<rparr>)"

definition time_Since :: "time \<Rightarrow> Clock \<Rightarrow> Duration \<times> Clock" where
  "time_Since t clk = (case time_Now clk of (now, clk') \<Rightarrow> (now - t, clk'))"

text \<open>The process clock never runs backwards.\<close>

definition monotonic :: "Clock \<Rightarrow> bool" where
  "monotonic clk = (\<forall>m n. m \<le> n \<longrightarrow> readings clk m \<le> readings clk n)"

section \<open>Contexts\<close>

text \<open>
  A \<^verbatim>\<open>context.Context\<close> as the map from the package's \<^verbatim>\<open>contextKey\<close> strings to
  the values attached with \<^verbatim>\<open>context.WithValue\<close>.
\<close>

datatype ctxval = BoolVal bool | StrVal string

type_synonym Context = "string \<Rightarrow> ctxval option"

definition maintenanceKey :: string where "maintenanceKey = ''maintenance''"
definition nameKey :: string where "nameKey = ''name''"

definition NewMaintenanceContext :: "Context \<Rightarrow> bool \<Rightarrow> Context" where
  "NewMaintenanceContext ctx isMaint = ctx(maintenanceKey \<mapsto> BoolVal isMaint)"

definition MaintenanceFromContext :: "Context \<Rightarrow> bool" where
  "MaintenanceFromContext ctx = (case ctx maintenanceKey of Some (BoolVal r) \<Rightarrow> r | _ \<Rightarrow> False)"

definition NewNameContext :: "Context \<Rightarrow> string \<Rightarrow> Context" where
  "NewNameContext ctx n = ctx(nameKey \<mapsto> StrVal n)"

definition NameFromContext :: "Context \<Rightarrow> string" where
  "NameFromContext ctx = (case ctx nameKey of Some (StrVal v) \<Rightarrow> v | _ \<Rightarrow> [])"

section \<open>Functions, jobs and the manager\<close>

text \<open>
  A call either returns its \<^verbatim>\<open>error\<close> result or panics. A \<^verbatim>\<open>Func\<close> runs on
  the part \<open>'w\<close> of the program state that lies outside the manager (the private state of
  the middleware units and whatever the business functions touch).
\<close>

datatype outcome = Returned "error option" | Panicked string

type_synonym 'w Func = "Context \<Rightarrow> 'w \<Rightarrow> outcome \<times> 'w"
type_synonym 'w MiddlewareFunc = "'w Func \<Rightarrow> 'w Func"

datatype cronState = stateIdle | stateDisabled | stateRunning | stateSkipped

fun cronState_string :: "cronState \<Rightarrow> string" where
  "cronState_string stateIdle = ''idle''"
| "cronState_string stateDisabled = ''disabled''"
| "cronState_string stateRunning = ''running''"
| "cronState_string stateSkipped = ''skipped''"

type_synonym Schedule = string

definition IsActive :: "Schedule \<Rightarrow> bool" where
  "IsActive ss = (ss \<noteq> cronState_string stateDisabled \<and> ss \<noteq> [])"

record jobState =
  state :: cronState
  err :: "error option"
  updatedAt :: time
  duration :: Duration

text \<open>
  The closure \<^verbatim>\<open>cronFnCtx\<close> that \<^verbatim>\<open>Run\<close> builds for a job, as the values it
  captures: the index \<^verbatim>\<open>idx\<close> and, of the copy \<^verbatim>\<open>j\<close> of the job, the fields
  its body reads (\<^verbatim>\<open>j.name\<close>, \<^verbatim>\<open>j.isMaintenance\<close>, \<^verbatim>\<open>j.fn\<close>).
\<close>

datatype 'w closure = CronFnCtx nat string bool "'w Func"

text \<open>
  The fields \<^verbatim>\<open>id\<close> and \<^verbatim>\<open>last\<close> of the Go struct are \<open>entryID\<close> and
  \<open>lastState\<close> here; a nil \<^verbatim>\<open>cronFn\<close> is \<open>None\<close>.
\<close>

record 'w job =
  entryID :: int
  name :: string
  schedule :: Schedule
  isMaintenance :: bool
  fn :: "'w Func"
  cronFn :: "'w closure option"
  lastState :: jobState

section \<open>The external scheduler\<close>

text \<open>
  The scheduler library is a collaborator of this package, taken by its contract:
  \<^verbatim>\<open>AddFunc\<close> parses the expression and, when it parses, issues the next identifier of a
  counter that starts at \<open>1\<close> and appends an entry whose two fire times are the zero time;
  \<^verbatim>\<open>Start\<close>, unless the scheduler runs already, sets the running flag and starts the
  scheduler's loop, which reads the clock and gives every entry the next fire time of its schedule
  after that moment; \<^verbatim>\<open>Entries\<close> returns the entries. The scheduler sorts its entries by
  fire time; the model keeps them in the order of registration, and nothing below reads their
  order (\<^verbatim>\<open>State\<close> indexes them by identifier).

  Four functions of libraries are parameters of the model, so that every theorem below holds
  whatever they compute: the parser of cron expressions \<open>parse\<close> (\<open>None\<close> when the
  expression parses; \<^verbatim>\<open>cron.ParseStandard\<close> and the parser of \<^verbatim>\<open>cron.New()\<close> are the
  same one), the next fire time \<open>nextFire\<close> of a schedule after a moment
  (\<^verbatim>\<open>Schedule.Next\<close>), and, in the manager, \<^verbatim>\<open>strings.ToLower\<close> and
  \<^verbatim>\<open>strings.EqualFold\<close>. The command of an entry is the closure
  \<^verbatim>\<open>func() { _ = cronFnCtx(ctx) }\<close>, kept as the pair it captures.
\<close>

type_synonym parser = "string \<Rightarrow> error option"
type_synonym scheduler = "string \<Rightarrow> time \<Rightarrow> time"

record 'w Entry =
  e_ID :: int
  e_spec :: string
  e_Next :: time
  e_Prev :: time
  e_cmd :: "'w closure \<times> Context"

record 'w Cron =
  entries :: "'w Entry list"
  nextID :: int
  running :: bool

definition cron_New :: "'w Cron" where
  "cron_New = \<lparr>entries = [], nextID = 0, running = False\<rparr>"

definition cron_AddFunc ::
  "parser \<Rightarrow> string \<Rightarrow> 'w closure \<times> Context \<Rightarrow> 'w Cron \<Rightarrow> (int \<times> error option) \<times> 'w Cron" where
  "cron_AddFunc parse spec cmd c =
     (case parse spec of
        Some e \<Rightarrow> ((0, Some e), c)
      | None \<Rightarrow>
          (let i = nextID c + 1;
               entry = \<lparr>e_ID = i, e_spec = spec, e_Next = 0, e_Prev = 0, e_cmd = cmd\<rparr>
           in ((i, None), c\<lparr>entries := entries c @ [entry], nextID := i\<rparr>)))"

definition cron_Start :: "scheduler \<Rightarrow> Clock \<Rightarrow> 'w Cron \<Rightarrow> 'w Cron \<times> Clock" where
  "cron_Start nextFire clk c =
     (if running c then (c, clk)
      else
        (case time_Now clk of
           (now, clk') \<Rightarrow>
             (c\<lparr>entries := map (\<lambda>e. e\<lparr>e_Next := nextFire (e_spec e) now\<rparr>) (entries c),
                running := True\<rparr>,
              clk')))"

definition cron_Entries :: "'w Cron \<Rightarrow> 'w Entry list" where
  "cron_Entries c = entries c"

section \<open>The manager\<close>

text \<open>
  \<^verbatim>\<open>muState\<close> is the mutex under which \<^verbatim>\<open>updateState\<close>, \<^verbatim>\<open>updateID\<close> and
  \<^verbatim>\<open>State\<close> run: each of them is one atomic function of the model.
\<close>

record 'w Manager =
  cron :: "'w Cron"
  middleware :: "'w MiddlewareFunc list"
  jobs :: "'w job list"

text \<open>The state of the program: the manager, the state outside it, and the clock.\<close>

record 'w System =
  manager :: "'w Manager"
  world :: 'w
  clock :: Clock

definition NewManager :: "'w Manager" where
  "NewManager = \<lparr>cron = cron_New, middleware = [], jobs = []\<rparr>"

definition newJob :: "string \<Rightarrow> Schedule \<Rightarrow> 'w Func \<Rightarrow> bool \<Rightarrow> 'w job" where
  "newJob n sched f isMaint =
     \<lparr>entryID = 0, name = n, schedule = sched, isMaintenance = isMaint, fn = f, cronFn = None,
      lastState = \<lparr>state = stateIdle, err = None, updatedAt = 0, duration = 0\<rparr>\<rparr>"

definition AddFunc :: "string \<Rightarrow> Schedule \<Rightarrow> 'w Func \<Rightarrow> 'w Manager \<Rightarrow> 'w Manager" where
  "AddFunc n sched f cm = cm\<lparr>jobs := jobs cm @ [newJob n sched f False]\<rparr>"

text \<open>\<^verbatim>\<open>Add\<close> takes a \<^verbatim>\<open>Runner\<close>; the argument here is its \<^verbatim>\<open>Run\<close> method.\<close>

definition Add :: "string \<Rightarrow> Schedule \<Rightarrow> 'w Func \<Rightarrow> 'w Manager \<Rightarrow> 'w Manager" where
  "Add n sched r_Run cm = AddFunc n sched r_Run cm"

definition AddMaintenanceFunc :: "string \<Rightarrow> Schedule \<Rightarrow> 'w Func \<Rightarrow> 'w Manager \<Rightarrow> 'w Manager" where
  "AddMaintenanceFunc n sched f cm = cm\<lparr>jobs := jobs cm @ [newJob n sched f True]\<rparr>"

definition Use :: "'w MiddlewareFunc list \<Rightarrow> 'w Manager \<Rightarrow> 'w Manager" where
  "Use m cm = cm\<lparr>middleware := middleware cm @ m\<rparr>"

subsection \<open>Validation\<close>

text \<open>
  The loop of \<^verbatim>\<open>validateJobs\<close>, with the set \<open>names\<close> of the lower-cased names seen
  so far. The result is the pair the Go function returns. The parameter \<open>toLower\<close> is
  \<^verbatim>\<open>strings.ToLower\<close>.
\<close>

fun validateJobs_loop ::
  "parser \<Rightarrow> (string \<Rightarrow> string) \<Rightarrow> string set \<Rightarrow> 'w job list \<Rightarrow> string \<times> error option" where
  "validateJobs_loop parse toLower names [] = ([], None)"
| "validateJobs_loop parse toLower names (j # rest) =
     (let n = toLower (name j) in
      if n \<in> names then (name j, Some ErrDuplicate)
      else if IsActive (schedule j) then
        (case parse (schedule j) of
           Some e \<Rightarrow> (name j, Some e)
         | None \<Rightarrow> validateJobs_loop parse toLower (insert n names) rest)
      else validateJobs_loop parse toLower (insert n names) rest)"

definition validateJobs ::
  "parser \<Rightarrow> (string \<Rightarrow> string) \<Rightarrow> 'w Manager \<Rightarrow> string \<times> error option" where
  "validateJobs parse toLower cm = validateJobs_loop parse toLower {} (jobs cm)"

subsection \<open>State updates\<close>

text \<open>
  \<^verbatim>\<open>updateState\<close>; \<open>None\<close> is the panic of \<^verbatim>\<open>cm.jobs[idx]\<close> when the index is out
  of range. \<^verbatim>\<open>time.Since\<close> and \<^verbatim>\<open>time.Now\<close> each read the clock.
\<close>

definition updateState ::
  "nat \<Rightarrow> cronState \<Rightarrow> error option \<Rightarrow> 'w System \<Rightarrow> 'w System option" where
  "updateState idx st e s =
     (let cm = manager s in
      if idx < length (jobs cm) then
        (let l0 = lastState (jobs cm ! idx);
             (l1, clk1) =
               (if state l0 = stateRunning \<and> st = stateIdle
                then (case time_Since (updatedAt l0) (clock s) of
                        (d, clk') \<Rightarrow> (l0\<lparr>duration := d\<rparr>, clk'))
                else (l0, clock s));
             l2 = l1\<lparr>state := st, err := e\<rparr>;
             (now, clk2) = time_Now clk1;
             l3 = l2\<lparr>updatedAt := now\<rparr>;
             l4 = (if errors_Is e ErrSkipped then l3\<lparr>state := stateSkipped, err := None\<rparr> else l3)
         in Some (s\<lparr>manager := cm\<lparr>jobs := (jobs cm)[idx := (jobs cm ! idx)\<lparr>lastState := l4\<rparr>]\<rparr>,
                    clock := clk2\<rparr>))
      else None)"

definition updateID :: "nat \<Rightarrow> int \<Rightarrow> 'w closure \<Rightarrow> 'w Manager \<Rightarrow> 'w Manager option" where
  "updateID idx i funcJob cm =
     (if idx < length (jobs cm)
      then Some (cm\<lparr>jobs := (jobs cm)[idx := (jobs cm ! idx)\<lparr>entryID := i, cronFn := Some funcJob\<rparr>]\<rparr>)
      else None)"

subsection \<open>The execution pipeline\<close>

text \<open>
  The loop \<^verbatim>\<open>for i := len(cm.middleware) - 1; i >= 0; i-- { f = cm.middleware[i](f) }\<close>;
  the counter of the model is \<open>i + 1\<close>, the number of units still to apply.
\<close>

fun applyMiddleware :: "'w MiddlewareFunc list \<Rightarrow> nat \<Rightarrow> 'w Func \<Rightarrow> 'w Func" where
  "applyMiddleware mws 0 f = f"
| "applyMiddleware mws (Suc i) f = applyMiddleware mws i ((mws ! i) f)"

text \<open>
  The body of the closure \<^verbatim>\<open>cronFnCtx\<close>. The middleware list is read from the manager
  when the closure runs. When the wrapped function panics, the panic leaves the closure before
  the second \<^verbatim>\<open>updateState\<close>.
\<close>

fun cronFnCtx :: "'w closure \<Rightarrow> Context \<Rightarrow> 'w System \<Rightarrow> outcome \<times> 'w System" where
  "cronFnCtx (CronFnCtx idx j_name j_isMaintenance j_fn) ctx s =
     (let f = applyMiddleware (middleware (manager s)) (length (middleware (manager s))) j_fn;
          ctx1 = NewNameContext ctx j_name;
          ctx2 = NewMaintenanceContext ctx1 j_isMaintenance
      in case updateState idx stateRunning None s of
           None \<Rightarrow> (Panicked ''index out of range'', s)
         | Some s1 \<Rightarrow>
             (case f ctx2 (world s1) of
                (Panicked p, w) \<Rightarrow> (Panicked p, s1\<lparr>world := w\<rparr>)
              | (Returned e, w) \<Rightarrow>
                  (case updateState idx stateIdle e (s1\<lparr>world := w\<rparr>) of
                     None \<Rightarrow> (Panicked ''index out of range'', s1\<lparr>world := w\<rparr>)
                   | Some s2 \<Rightarrow> (Returned e, s2))))"

text \<open>
  \<^verbatim>\<open>ManualRun\<close>: the first job whose name matches is called through its \<^verbatim>\<open>cronFn\<close>;
  calling a nil function value panics. The parameter \<open>equalFold\<close> is
  \<^verbatim>\<open>strings.EqualFold\<close>.
\<close>

fun ManualRun_loop ::
  "(string \<Rightarrow> string \<Rightarrow> bool) \<Rightarrow> 'w job list \<Rightarrow> Context \<Rightarrow> string \<Rightarrow> 'w System
   \<Rightarrow> outcome \<times> 'w System" where
  "ManualRun_loop equalFold [] ctx ident s = (Returned (Some ErrNotFound), s)"
| "ManualRun_loop equalFold (j # rest) ctx ident s =
     (if equalFold (name j) ident then
        (case cronFn j of
           None \<Rightarrow> (Panicked ''invalid memory address or nil pointer dereference'', s)
         | Some c \<Rightarrow> cronFnCtx c ctx s)
      else ManualRun_loop equalFold rest ctx ident s)"

definition ManualRun ::
  "(string \<Rightarrow> string \<Rightarrow> bool) \<Rightarrow> Context \<Rightarrow> string \<Rightarrow> 'w System \<Rightarrow> outcome \<times> 'w System" where
  "ManualRun equalFold ctx ident s = ManualRun_loop equalFold (jobs (manager s)) ctx ident s"

text \<open>\<^verbatim>\<open>fmt.Errorf("%w: %s", err, name)\<close> and \<^verbatim>\<open>fmt.Errorf("add cron=%v failed: %w", j.name, err)\<close>.\<close>

definition Errorf_validate :: "error option \<Rightarrow> string \<Rightarrow> error" where
  "Errorf_validate e n =
     (case e of
        Some e' \<Rightarrow> ErrWrap (Error e' @ '': '' @ n) e'
      | None \<Rightarrow> ErrOther (''%!w(<nil>): '' @ n))"

definition Errorf_add :: "string \<Rightarrow> error \<Rightarrow> error" where
  "Errorf_add n e = ErrWrap (''add cron='' @ n @ '' failed: '' @ Error e) e"

text \<open>
  The body of the registration loop of \<^verbatim>\<open>Run\<close> at the index \<open>idx\<close>. The result
  \<open>None\<close> goes on with the loop (the \<^verbatim>\<open>continue\<close>, or the end of the body);
  \<open>Some r\<close> leaves \<^verbatim>\<open>Run\<close> with \<open>r\<close>. The fake identifier of a job with an inactive
  schedule is \<^verbatim>\<open>cron.EntryID(idx*-1)\<close>.
\<close>

definition Run_body :: "parser \<Rightarrow> Context \<Rightarrow> nat \<Rightarrow> 'w System \<Rightarrow> outcome option \<times> 'w System" where
  "Run_body parse ctx idx s =
     (if idx < length (jobs (manager s)) then
        (let j = jobs (manager s) ! idx;
             cronFnCtx = CronFnCtx idx (name j) (isMaintenance j) (fn j)
         in if \<not> IsActive (schedule j) then
              (case updateID idx (- int idx) cronFnCtx (manager s) of
                 None \<Rightarrow> (Some (Panicked ''index out of range''), s)
               | Some cm1 \<Rightarrow>
                   (case updateState idx stateDisabled None (s\<lparr>manager := cm1\<rparr>) of
                      None \<Rightarrow> (Some (Panicked ''index out of range''), s\<lparr>manager := cm1\<rparr>)
                    | Some s2 \<Rightarrow> (None, s2)))
            else
              (case cron_AddFunc parse (schedule j) (cronFnCtx, ctx) (cron (manager s)) of
                 ((i, Some e), c) \<Rightarrow>
                   (Some (Returned (Some (Errorf_add (name j) e))),
                    s\<lparr>manager := (manager s)\<lparr>cron := c\<rparr>\<rparr>)
               | ((i, None), c) \<Rightarrow>
                   (case updateID idx i cronFnCtx ((manager s)\<lparr>cron := c\<rparr>) of
                      None \<Rightarrow>
                        (Some (Panicked ''index out of range''), s\<lparr>manager := (manager s)\<lparr>cron := c\<rparr>\<rparr>)
                    | Some cm1 \<Rightarrow> (None, s\<lparr>manager := cm1\<rparr>))))
      else (Some (Panicked ''index out of range''), s))"

text \<open>The loop \<^verbatim>\<open>for idx := range cm.jobs\<close>, over the list of the indices.\<close>

fun Run_loop :: "parser \<Rightarrow> Context \<Rightarrow> nat list \<Rightarrow> 'w System \<Rightarrow> outcome option \<times> 'w System" where
  "Run_loop parse ctx [] s = (None, s)"
| "Run_loop parse ctx (idx # rest) s =
     (case Run_body parse ctx idx s of
        (Some r, s1) \<Rightarrow> (Some r, s1)
      | (None, s1) \<Rightarrow> Run_loop parse ctx rest s1)"

text \<open>
  \<^verbatim>\<open>Run\<close>. The test after validation is \<^verbatim>\<open>name != ""\<close>, on the name that
  \<^verbatim>\<open>validateJobs\<close> returns. After the loop, \<^verbatim>\<open>cm.cron.Start()\<close>.
\<close>

definition Run ::
  "parser \<Rightarrow> (string \<Rightarrow> string) \<Rightarrow> scheduler \<Rightarrow> Context \<Rightarrow> 'w System \<Rightarrow> outcome \<times> 'w System" where
  "Run parse toLower nextFire ctx s =
     (case validateJobs parse toLower (manager s) of
        (n, e) \<Rightarrow>
          if n \<noteq> [] then (Returned (Some (Errorf_validate e n)), s)
          else
            (case Run_loop parse ctx [0..<length (jobs (manager s))] s of
               (Some r, s1) \<Rightarrow> (r, s1)
             | (None, s1) \<Rightarrow>
                 (case cron_Start nextFire (clock s1) (cron (manager s1)) of
                    (c, clk) \<Rightarrow>
                      (Returned None, s1\<lparr>manager := (manager s1)\<lparr>cron := c\<rparr>, clock := clk\<rparr>))))"

subsection \<open>Snapshots\<close>

record State =
  ID :: int
  Name :: string
  Schedule :: string
  IsMaintenance :: bool
  LastState :: string
  LastErr :: "error option"
  LastDuration :: Duration
  LastUpdatedAt :: time
  LastRun :: time
  NextRun :: time

text \<open>The map \<^verbatim>\<open>entryIndex\<close> from identifiers to entries; a later entry replaces an earlier one.\<close>

fun entryIndex :: "'w Entry list \<Rightarrow> (int \<Rightarrow> 'w Entry option) \<Rightarrow> (int \<Rightarrow> 'w Entry option)" where
  "entryIndex [] m = m"
| "entryIndex (e # es) m = entryIndex es (m(e_ID e \<mapsto> e))"

definition jobSnapshot :: "(int \<Rightarrow> 'w Entry option) \<Rightarrow> 'w job \<Rightarrow> State" where
  "jobSnapshot index j =
     (let s = \<lparr>ID = entryID j, Name = name j, Schedule = schedule j,
               IsMaintenance = isMaintenance j,
               LastState = cronState_string (state (lastState j)),
               LastErr = err (lastState j),
               LastDuration = duration (lastState j),
               LastUpdatedAt = updatedAt (lastState j),
               LastRun = 0, NextRun = 0\<rparr>
      in case index (ID s) of
           Some e \<Rightarrow> s\<lparr>LastRun := e_Prev e, NextRun := e_Next e\<rparr>
         | None \<Rightarrow> s)"

definition State :: "'w Manager \<Rightarrow> State list" where
  "State cm = map (jobSnapshot (entryIndex (cron_Entries (cron cm)) Map.empty)) (jobs cm)"

section \<open>The duplicate-run guard\<close>

text \<open>
  The private state of the two coordinators: the map \<^verbatim>\<open>active\<close> of
  \<^verbatim>\<open>WithSkipActive\<close>, used as a set of names, and the \<^verbatim>\<open>sync.RWMutex\<close> of
  \<^verbatim>\<open>WithMaintenance\<close> (held by a writer, or by a number of readers).
\<close>

record coord =
  active :: "string set"
  writer :: bool
  readers :: nat

text \<open>
  \<^verbatim>\<open>WithSkipActive\<close>. The two sections under \<^verbatim>\<open>mu\<close> are atomic; the deferred
  function runs when the wrapped call returns and when it panics.
\<close>

definition WithSkipActive :: "('a coord_scheme) MiddlewareFunc" where
  "WithSkipActive nxt ctx w =
     (let n = NameFromContext ctx in
      if n \<in> active w then (Returned (Some ErrSkipped), w)
      else
        (case nxt ctx (w\<lparr>active := insert n (active w)\<rparr>) of
           (r, w') \<Rightarrow> (r, w'\<lparr>active := active w' - {n}\<rparr>)))"

section \<open>Concurrent invocations through the guard\<close>

text \<open>
  Invocations of \<^verbatim>\<open>cronFnCtx\<close> run concurrently (the scheduler starts each due
  entry on a goroutine of its own, and so does the manual trigger of the HTTP handler).
  With \<^verbatim>\<open>WithSkipActive\<close> as the middleware chain, an invocation is a sequence of
  atomic steps, each a section of the source under one mutex, and the program counter says
  which comes next:
  \<^item> \<open>AtUpdateRunning\<close>: \<^verbatim>\<open>cm.updateState(idx, stateRunning, nil)\<close>;
  \<^item> \<open>AtGuard\<close>: the test and insertion of \<^verbatim>\<open>WithSkipActive\<close> under \<^verbatim>\<open>mu\<close>;
  \<^item> \<open>InBusiness\<close>: \<^verbatim>\<open>next(ctx)\<close>, the business function, is executing; the step is its end;
  \<^item> \<open>AtDeferred r\<close>: the deferred \<^verbatim>\<open>delete(active, name)\<close>, with the outcome \<open>r\<close> of the call;
  \<^item> \<open>AtUpdateIdle e\<close>: \<^verbatim>\<open>cm.updateState(idx, stateIdle, err)\<close>;
  \<^item> \<open>Finished r\<close>: the closure has returned \<open>r\<close>, or a panic has left it.
  The effects of a business function lie outside the manager and the guard: of a business
  function the model keeps its outcome only.
\<close>

datatype pc =
    AtUpdateRunning
  | AtGuard
  | InBusiness
  | AtDeferred outcome
  | AtUpdateIdle "error option"
  | Finished outcome

record invocation =
  i_idx :: nat
  i_name :: string
  i_result :: outcome
  i_pc :: pc

text \<open>An invocation of a closure whose business function will end with \<open>r\<close>.\<close>

fun invoke :: "'w closure \<Rightarrow> outcome \<Rightarrow> invocation" where
  "invoke (CronFnCtx idx j_name j_isMaintenance j_fn) r =
     \<lparr>i_idx = idx, i_name = j_name, i_result = r, i_pc = AtUpdateRunning\<rparr>"

fun invocation_step ::
  "pc \<Rightarrow> invocation \<Rightarrow> ('a coord_scheme) System \<Rightarrow> (('a coord_scheme) System \<times> invocation) option" where
  "invocation_step AtUpdateRunning t s =
     (case updateState (i_idx t) stateRunning None s of
        None \<Rightarrow> None
      | Some s' \<Rightarrow> Some (s', t\<lparr>i_pc := AtGuard\<rparr>))"
| "invocation_step AtGuard t s =
     (if i_name t \<in> active (world s)
      then Some (s, t\<lparr>i_pc := AtUpdateIdle (Some ErrSkipped)\<rparr>)
      else Some (s\<lparr>world := (world s)\<lparr>active := insert (i_name t) (active (world s))\<rparr>\<rparr>,
                 t\<lparr>i_pc := InBusiness\<rparr>))"
| "invocation_step InBusiness t s = Some (s, t\<lparr>i_pc := AtDeferred (i_result t)\<rparr>)"
| "invocation_step (AtDeferred r) t s =
     Some (s\<lparr>world := (world s)\<lparr>active := active (world s) - {i_name t}\<rparr>\<rparr>,
           t\<lparr>i_pc := (case r of Returned e \<Rightarrow> AtUpdateIdle e | Panicked p \<Rightarrow> Finished (Panicked p))\<rparr>)"
| "invocation_step (AtUpdateIdle e) t s =
     (case updateState (i_idx t) stateIdle e s of
        None \<Rightarrow> None
      | Some s' \<Rightarrow> Some (s', t\<lparr>i_pc := Finished (Returned e)\<rparr>))"
| "invocation_step (Finished r) t s = None"

text \<open>Invocation \<open>k\<close> takes its next step; \<open>None\<close> when it has none.\<close>

definition step ::
  "nat \<Rightarrow> ('a coord_scheme) System \<times> invocation list \<Rightarrow> (('a coord_scheme) System \<times> invocation list) option" where
  "step k st =
     (case st of (s, ts) \<Rightarrow>
        if k < length ts then
          (case invocation_step (i_pc (ts ! k)) (ts ! k) s of
             None \<Rightarrow> None
           | Some (s', t') \<Rightarrow> Some (s', ts[k := t']))
        else None)"

text \<open>A schedule is the list of the invocations that step, in order.\<close>

fun exec ::
  "nat list \<Rightarrow> ('a coord_scheme) System \<times> invocation list \<Rightarrow> (('a coord_scheme) System \<times> invocation list) option" where
  "exec [] st = Some st"
| "exec (k # ks) st = (case step k st of None \<Rightarrow> None | Some st' \<Rightarrow> exec ks st')"

text \<open>
  At the start no name is active and no invocation has taken a step; the reachable states
  are those some schedule leads to.
\<close>

definition initial :: "('a coord_scheme) System \<times> invocation list \<Rightarrow> bool" where
  "initial st = (case st of (s, ts) \<Rightarrow>
     active (world s) = {} \<and> list_all (\<lambda>t. i_pc t = AtUpdateRunning) ts)"

inductive reachable :: "('a coord_scheme) System \<times> invocation list \<Rightarrow> bool" where
  reachable_initial: "initial st \<Longrightarrow> reachable st"
| reachable_step: "reachable st \<Longrightarrow> step k st = Some st' \<Longrightarrow> reachable st'"

text \<open>An invocation is in flight under the guard from its insertion to its deferred removal.\<close>

fun guarded :: "pc \<Rightarrow> bool" where
  "guarded InBusiness = True"
| "guarded (AtDeferred r) = True"
| "guarded _ = False"

section \<open>Concurrent invocations through the maintenance gate\<close>

text \<open>
  The steps of an invocation of the function \<^verbatim>\<open>WithMaintenance\<close> returns:
  \<^item> \<open>AtLock\<close>: \<^verbatim>\<open>mutex.Lock()\<close> of a maintenance task, \<^verbatim>\<open>mutex.RLock()\<close> of any other;
    the step is the acquisition, and the invocation waits while the lock cannot be taken;
  \<^item> \<open>Executing\<close>: \<^verbatim>\<open>next(ctx)\<close> is executing; the step is its end;
  \<^item> \<open>AtUnlock e\<close>: \<^verbatim>\<open>mutex.Unlock()\<close> or \<^verbatim>\<open>mutex.RUnlock()\<close>;
  \<^item> \<open>Left r\<close>: the function has returned \<open>r\<close>, or the panic of \<^verbatim>\<open>next(ctx)\<close> has
    left it; the lock is not released on that path, which has no deferred call.
  The \<^verbatim>\<open>sync.RWMutex\<close> grants the exclusive hold when there is no holder and a shared hold
  when there is no exclusive holder. (The library also makes new readers wait behind a
  waiting writer: it allows fewer schedules than the model.) Unlocking a lock that is not
  held is a fatal error of the library: the invocation has no step there.
\<close>

datatype gate_pc = AtLock | Executing | AtUnlock "error option" | Left outcome

record gate_invocation =
  g_isMaintenance :: bool
  g_result :: outcome
  g_pc :: gate_pc

fun gate_invocation_step ::
  "gate_pc \<Rightarrow> gate_invocation \<Rightarrow> ('a coord_scheme) \<Rightarrow> (('a coord_scheme) \<times> gate_invocation) option" where
  "gate_invocation_step AtLock t w =
     (if g_isMaintenance t then
        (if \<not> writer w \<and> readers w = 0
         then Some (w\<lparr>writer := True\<rparr>, t\<lparr>g_pc := Executing\<rparr>) else None)
      else
        (if \<not> writer w
         then Some (w\<lparr>readers := readers w + 1\<rparr>, t\<lparr>g_pc := Executing\<rparr>) else None))"
| "gate_invocation_step Executing t w =
     Some (w, t\<lparr>g_pc := (case g_result t of Returned e \<Rightarrow> AtUnlock e | Panicked p \<Rightarrow> Left (Panicked p))\<rparr>)"
| "gate_invocation_step (AtUnlock e) t w =
     (if g_isMaintenance t then
        (if writer w
         then Some (w\<lparr>writer := False\<rparr>, t\<lparr>g_pc := Left (Returned e)\<rparr>) else None)
      else
        (if 0 < readers w
         then Some (w\<lparr>readers := readers w - 1\<rparr>, t\<lparr>g_pc := Left (Returned e)\<rparr>) else None))"
| "gate_invocation_step (Left r) t w = None"

definition gate_step ::
  "nat \<Rightarrow> ('a coord_scheme) \<times> gate_invocation list \<Rightarrow> (('a coord_scheme) \<times> gate_invocation list) option" where
  "gate_step k st =
     (case st of (w, ts) \<Rightarrow>
        if k < length ts then
          (case gate_invocation_step (g_pc (ts ! k)) (ts ! k) w of
             None \<Rightarrow> None
           | Some (w', t') \<Rightarrow> Some (w', ts[k := t']))
        else None)"

fun gate_exec ::
  "nat list \<Rightarrow> ('a coord_scheme) \<times> gate_invocation list \<Rightarrow> (('a coord_scheme) \<times> gate_invocation list) option" where
  "gate_exec [] st = Some st"
| "gate_exec (k # ks) st = (case gate_step k st of None \<Rightarrow> None | Some st' \<Rightarrow> gate_exec ks st')"

definition gate_initial :: "('a coord_scheme) \<times> gate_invocation list \<Rightarrow> bool" where
  "gate_initial st = (case st of (w, ts) \<Rightarrow>
     \<not> writer w \<and> readers w = 0 \<and> list_all (\<lambda>t. g_pc t = AtLock) ts)"

inductive gate_reachable :: "('a coord_scheme) \<times> gate_invocation list \<Rightarrow> bool" where
  gate_reachable_initial: "gate_initial st \<Longrightarrow> gate_reachable st"
| gate_reachable_step: "gate_reachable st \<Longrightarrow> gate_step k st = Some st' \<Longrightarrow> gate_reachable st'"

text \<open>The business function of invocation \<open>k\<close> is executing.\<close>

definition executing :: "gate_invocation list \<Rightarrow> nat \<Rightarrow> bool" where
  "executing ts k = (k < length ts \<and> g_pc (ts ! k) = Executing)"

section \<open>Example configurations\<close>

text \<open>
  The configuration of the repository's test: a business function that returns nil, and a
  manager with the tasks \<^verbatim>\<open>f1\<close> and \<^verbatim>\<open>f2\<close> on the schedule \<^verbatim>\<open>0 0 * * *\<close>. The
  example clock reads \<open>0, 5, 10, \<dots>\<close>.
\<close>

definition newCronFunc :: "'w Func" where
  "newCronFunc ctx w = (Returned None, w)"

definition test_clock :: Clock where
  "test_clock = \<lparr>readings = (\<lambda>n. 5 * int n), taken = 0\<rparr>"

definition test_world :: coord where
  "test_world = \<lparr>active = {}, writer = False, readers = 0\<rparr>"

definition test_manager :: "coord Manager" where
  "test_manager =
     AddFunc ''f2'' ''0 0 * * *'' newCronFunc (AddFunc ''f1'' ''0 0 * * *'' newCronFunc NewManager)"

definition test_system :: "coord System" where
  "test_system = \<lparr>manager = test_manager, world = test_world, clock = test_clock\<rparr>"

text \<open>The test system after \<^verbatim>\<open>updateState(0, stateRunning, nil)\<close>.\<close>

definition running_system :: "coord System" where
  "running_system =
     (case updateState 0 stateRunning None test_system of Some s \<Rightarrow> s | None \<Rightarrow> test_system)"

text \<open>The running system after \<^verbatim>\<open>updateState(0, stateIdle, ErrSkipped)\<close>.\<close>

definition skipped_system :: "coord System" where
  "skipped_system =
     (case updateState 0 stateIdle (Some ErrSkipped) running_system of
        Some s \<Rightarrow> s | None \<Rightarrow> running_system)"

text \<open>
  A stand-in for the parser at the schedules of the examples: the repository's test takes
  \<^verbatim>\<open>invalid\<close> for a schedule that does not parse and \<^verbatim>\<open>0 0 * * *\<close> for one that does.
\<close>

definition test_parse :: parser where
  "test_parse spec =
     (if spec = ''invalid'' then Some (ErrOther ''expected exactly 5 fields, found 1: [invalid]'')
      else None)"

text \<open>
  A stand-in for the next fire time of a schedule: the examples only need a moment after the
  one given, and not the zero time.
\<close>

definition test_next :: scheduler where
  "test_next spec now = now + 60"

text \<open>
  The task names of the examples are strings of ASCII letters and digits. On a string of ASCII
  bytes \<^verbatim>\<open>strings.ToLower\<close> maps the letters \<open>A\<close> to \<open>Z\<close> to lower case and leaves
  every other byte, and on two such strings \<^verbatim>\<open>strings.EqualFold\<close> compares byte by byte up
  to the case of those letters. The two functions below are these restrictions; they stand for
  the library functions in the examples only, and say nothing of names with other bytes.
\<close>

definition ascii_toLower_char :: "char \<Rightarrow> char" where
  "ascii_toLower_char c =
     (let n = (of_char c :: nat) in if 65 \<le> n \<and> n \<le> 90 then char_of (n + 32) else c)"

definition ascii_ToLower :: "string \<Rightarrow> string" where
  "ascii_ToLower s = map ascii_toLower_char s"

definition ascii_fold_eq :: "char \<Rightarrow> char \<Rightarrow> bool" where
  "ascii_fold_eq a b =
     (let sr = min (of_char a :: nat) (of_char b); tr = max (of_char a :: nat) (of_char b)
      in sr = tr \<or> (65 \<le> sr \<and> sr \<le> 90 \<and> tr = sr + 32))"

fun ascii_EqualFold :: "string \<Rightarrow> string \<Rightarrow> bool" where
  "ascii_EqualFold [] [] = True"
| "ascii_EqualFold (a # s) (b # t) = (ascii_fold_eq a b \<and> ascii_EqualFold s t)"
| "ascii_EqualFold _ _ = False"

text \<open>Two tasks whose names differ in case only.\<close>

definition case_manager :: "coord Manager" where
  "case_manager =
     AddFunc ''F1'' ''0 0 * * *'' newCronFunc (AddFunc ''f1'' ''0 0 * * *'' newCronFunc NewManager)"

text \<open>A task with a schedule that does not parse, registered before two tasks of the same name.\<close>

definition bad_first_manager :: "coord Manager" where
  "bad_first_manager =
     AddFunc ''B'' ''0 0 * * *'' newCronFunc
       (AddFunc ''b'' ''0 0 * * *'' newCronFunc (AddFunc ''a'' ''invalid'' newCronFunc NewManager))"

text \<open>Two manual-only tasks, both registered under the empty name.\<close>

definition unnamed_system :: "coord System" where
  "unnamed_system =
     \<lparr>manager = AddFunc [] [] newCronFunc (AddFunc [] [] newCronFunc NewManager),
      world = test_world, clock = test_clock\<rparr>"

text \<open>A valid task, then a task with the empty name and a schedule that does not parse.\<close>

definition half_named_system :: "coord System" where
  "half_named_system =
     \<lparr>manager = AddFunc [] ''invalid'' newCronFunc (AddFunc ''f1'' ''0 0 * * *'' newCronFunc NewManager),
      world = test_world, clock = test_clock\<rparr>"

text \<open>A manual-only task registered first (the task \<^verbatim>\<open>f5\<close> of the repository's example).\<close>

definition manual_first_system :: "coord System" where
  "manual_first_system =
     \<lparr>manager = AddFunc ''f1'' ''0 0 * * *'' newCronFunc (AddFunc ''f5'' [] newCronFunc NewManager),
      world = test_world, clock = test_clock\<rparr>"

text \<open>The same two tasks, the manual-only task registered second.\<close>

definition manual_second_system :: "coord System" where
  "manual_second_system =
     \<lparr>manager = AddFunc ''f5'' [] newCronFunc (AddFunc ''f1'' ''0 0 * * *'' newCronFunc NewManager),
      world = test_world, clock = test_clock\<rparr>"




text \<open>
  The test system with \<^verbatim>\<open>WithSkipActive\<close> as its middleware chain, the context that
  \<^verbatim>\<open>cronFnCtx\<close> builds for the task \<^verbatim>\<open>f1\<close>, and a guard state in which \<^verbatim>\<open>f1\<close> is
  active.
\<close>

definition guard_system :: "coord System" where
  "guard_system = test_system\<lparr>manager := Use [WithSkipActive] test_manager\<rparr>"

definition f1_context :: Context where
  "f1_context = NewMaintenanceContext (NewNameContext Map.empty ''f1'') False"

definition f1_active_world :: coord where
  "f1_active_world = test_world\<lparr>active := {''f1''}\<rparr>"

text \<open>Two invocations of the closure of \<^verbatim>\<open>f1\<close>; an invocation of \<^verbatim>\<open>f1\<close> and one of \<^verbatim>\<open>f2\<close>.\<close>

definition f1_twice :: "invocation list" where
  "f1_twice =
     [invoke (CronFnCtx 0 ''f1'' False (newCronFunc :: coord Func)) (Returned None),
      invoke (CronFnCtx 0 ''f1'' False (newCronFunc :: coord Func)) (Returned None)]"

definition f1_and_f2 :: "invocation list" where
  "f1_and_f2 =
     [invoke (CronFnCtx 0 ''f1'' False (newCronFunc :: coord Func)) (Returned None),
      invoke (CronFnCtx 1 ''f2'' False (newCronFunc :: coord Func)) (Returned None)]"

text \<open>
  The state in which the first of two invocations of \<^verbatim>\<open>f1\<close> is in flight and the second
  has not started, and the state in which \<^verbatim>\<open>f1\<close> is in flight and the invocation of
  \<^verbatim>\<open>f2\<close> has reached the guard.
\<close>

definition f1_in_flight :: "coord System \<times> invocation list" where
  "f1_in_flight =
     (case exec [0, 0] (guard_system, f1_twice) of
        Some st \<Rightarrow> st | None \<Rightarrow> (guard_system, f1_twice))"

definition f2_at_guard :: "coord System \<times> invocation list" where
  "f2_at_guard =
     (case exec [0, 0, 1] (guard_system, f1_and_f2) of
        Some st \<Rightarrow> st | None \<Rightarrow> (guard_system, f1_and_f2))"

text \<open>A business function that panics, as the task of the repository's example may.\<close>

definition panicking :: "coord Func" where
  "panicking ctx w = (Panicked ''job test panic'', w)"

text \<open>
  Invocations at the maintenance gate: the maintenance task \<^verbatim>\<open>f3\<close> and the ordinary tasks
  \<^verbatim>\<open>f1\<close> and \<^verbatim>\<open>f2\<close> of the repository's example; and the state in which \<^verbatim>\<open>f3\<close>
  has taken the lock.
\<close>

definition gate_three :: "gate_invocation list" where
  "gate_three =
     [\<lparr>g_isMaintenance = True, g_result = Returned None, g_pc = AtLock\<rparr>,
      \<lparr>g_isMaintenance = False, g_result = Returned None, g_pc = AtLock\<rparr>,
      \<lparr>g_isMaintenance = False, g_result = Returned None, g_pc = AtLock\<rparr>]"

definition f3_executing :: "coord \<times> gate_invocation list" where
  "f3_executing =
     (case gate_exec [0] (test_world, gate_three) of
        Some st \<Rightarrow> st | None \<Rightarrow> (test_world, gate_three))"

section \<open>Notions used in the statements\<close>

text \<open>
  The lower-cased names of a job list, in registration order; \<open>toLower\<close> is
  \<^verbatim>\<open>strings.ToLower\<close>.
\<close>

definition lower_names :: "(string \<Rightarrow> string) \<Rightarrow> 'w job list \<Rightarrow> string list" where
  "lower_names toLower js = map (\<lambda>j. toLower (name j)) js"

text \<open>Every active schedule of the list parses.\<close>

definition schedules_parse :: "parser \<Rightarrow> 'w job list \<Rightarrow> bool" where
  "schedules_parse parse js =
     list_all (\<lambda>j. IsActive (schedule j) \<longrightarrow> parse (schedule j) = None) js"

text \<open>
  What registration never changes: the number of jobs, what each job was registered with,
  the middleware list and the state outside the manager.
\<close>

definition same_tasks :: "'w System \<Rightarrow> 'w System \<Rightarrow> bool" where
  "same_tasks s s' =
     (length (jobs (manager s')) = length (jobs (manager s)) \<and>
      (\<forall>i < length (jobs (manager s)).
         name (jobs (manager s') ! i) = name (jobs (manager s) ! i) \<and>
         schedule (jobs (manager s') ! i) = schedule (jobs (manager s) ! i) \<and>
         isMaintenance (jobs (manager s') ! i) = isMaintenance (jobs (manager s) ! i) \<and>
         fn (jobs (manager s') ! i) = fn (jobs (manager s) ! i)) \<and>
      middleware (manager s') = middleware (manager s) \<and>
      world s' = world s)"

text \<open>
  The job at \<open>idx\<close> has been through the registration loop: it holds its closure, and when
  its schedule is inactive it has the fake identifier and the phase \<open>disabled\<close>.
\<close>

definition activated :: "nat \<Rightarrow> 'w System \<Rightarrow> bool" where
  "activated idx s =
     (idx < length (jobs (manager s)) \<and>
      (let j = jobs (manager s) ! idx in
         cronFn j = Some (CronFnCtx idx (name j) (isMaintenance j) (fn j)) \<and>
         (\<not> IsActive (schedule j) \<longrightarrow>
            entryID j = - int idx \<and> state (lastState j) = stateDisabled \<and> err (lastState j) = None)))"

text \<open>
  The entries of the scheduler carry identifiers from \<open>1\<close> to the counter, and the closures
  of jobs with an active schedule.
\<close>

fun closure_idx :: "'w closure \<Rightarrow> nat" where
  "closure_idx (CronFnCtx idx j_name j_isMaintenance j_fn) = idx"

definition cron_ok :: "'w System \<Rightarrow> bool" where
  "cron_ok s =
     (0 \<le> nextID (cron (manager s)) \<and>
      list_all
        (\<lambda>e. 0 < e_ID e \<and> e_ID e \<le> nextID (cron (manager s)) \<and>
             closure_idx (fst (e_cmd e)) < length (jobs (manager s)) \<and>
             IsActive (schedule (jobs (manager s) ! closure_idx (fst (e_cmd e)))))
        (entries (cron (manager s))))"

text \<open>
  The job at \<open>idx\<close> has an active schedule and an entry of the scheduler under its
  identifier, with its schedule and no previous fire time.
\<close>

definition scheduled :: "nat \<Rightarrow> 'w System \<Rightarrow> bool" where
  "scheduled idx s =
     (idx < length (jobs (manager s)) \<and>
      IsActive (schedule (jobs (manager s) ! idx)) \<and>
      list_ex
        (\<lambda>e. e_ID e = entryID (jobs (manager s) ! idx) \<and>
             e_spec e = schedule (jobs (manager s) ! idx) \<and> e_Prev e = 0)
        (entries (cron (manager s))))"

text \<open>The scheduler has not been started, and no two of its entries have the same identifier.\<close>

definition cron_idle :: "'w System \<Rightarrow> bool" where
  "cron_idle s =
     (\<not> running (cron (manager s)) \<and> distinct (map e_ID (entries (cron (manager s)))))"

text \<open>
  The managers on which \<^verbatim>\<open>Run\<close> has not been called: those built from
  \<^verbatim>\<open>NewManager\<close> by the registration functions.
\<close>

inductive configured :: "'w Manager \<Rightarrow> bool" where
  configured_New: "configured NewManager"
| configured_AddFunc: "configured cm \<Longrightarrow> configured (AddFunc n sched f cm)"
| configured_Add: "configured cm \<Longrightarrow> configured (Add n sched r cm)"
| configured_AddMaintenanceFunc: "configured cm \<Longrightarrow> configured (AddMaintenanceFunc n sched f cm)"
| configured_Use: "configured cm \<Longrightarrow> configured (Use m cm)"

text \<open>
  The invariant of the guard: the active names are the names of the invocations in flight
  under it, no two of which have the same name; and an invocation that has passed its first
  state update has a valid job index.
\<close>

definition guard_inv :: "('a coord_scheme) System \<times> invocation list \<Rightarrow> bool" where
  "guard_inv st =
     (case st of (s, ts) \<Rightarrow>
        (\<forall>k < length ts. guarded (i_pc (ts ! k)) \<longrightarrow> i_name (ts ! k) \<in> active (world s)) \<and>
        (\<forall>n \<in> active (world s). \<exists>k < length ts. guarded (i_pc (ts ! k)) \<and> i_name (ts ! k) = n) \<and>
        (\<forall>k < length ts. \<forall>k' < length ts.
           guarded (i_pc (ts ! k)) \<and> guarded (i_pc (ts ! k')) \<and> i_name (ts ! k) = i_name (ts ! k')
           \<longrightarrow> k = k') \<and>
        (\<forall>k < length ts. i_pc (ts ! k) \<noteq> AtUpdateRunning \<longrightarrow> i_idx (ts ! k) < length (jobs (manager s))))"

text \<open>
  An invocation holds the lock of the maintenance gate from its acquisition to its release;
  one that a panic has taken out of the gate holds it for ever. The invariant of the gate:
  the lock counts its holders.
\<close>

fun holds_lock :: "gate_pc \<Rightarrow> bool" where
  "holds_lock Executing = True"
| "holds_lock (AtUnlock e) = True"
| "holds_lock (Left (Panicked p)) = True"
| "holds_lock _ = False"

definition writers_holding :: "gate_invocation list \<Rightarrow> nat" where
  "writers_holding ts = length (filter (\<lambda>t. g_isMaintenance t \<and> holds_lock (g_pc t)) ts)"

definition readers_holding :: "gate_invocation list \<Rightarrow> nat" where
  "readers_holding ts = length (filter (\<lambda>t. \<not> g_isMaintenance t \<and> holds_lock (g_pc t)) ts)"

definition gate_inv :: "('a coord_scheme) \<times> gate_invocation list \<Rightarrow> bool" where
  "gate_inv st =
     (case st of (w, ts) \<Rightarrow>
        readers w = readers_holding ts \<and>
        writers_holding ts = (if writer w then 1 else 0) \<and>
        (writer w \<longrightarrow> readers w = 0))"

text \<open>
  Every recorded update time is a reading that the clock has already given, on a clock that
  never runs backwards. \<^verbatim>\<open>updateState\<close> keeps this, and it holds of freshly registered
  jobs on a clock whose readings are not negative.
\<close>

definition recorded_in_past :: "'w System \<Rightarrow> bool" where
  "recorded_in_past s =
     (monotonic (clock s) \<and>
      list_all (\<lambda>j. updatedAt (lastState j) \<le> readings (clock s) (taken (clock s))) (jobs (manager s)))"

section \<open>Properties of the state update\<close>

lemma updateState_in_range:
  "idx < length (jobs (manager s)) \<Longrightarrow> \<exists>s'. updateState idx st e s = Some s'"
  by (simp add: updateState_def Let_def split: prod.splits)

lemma updateState_idx:
  "updateState idx st e s = Some s' \<Longrightarrow> idx < length (jobs (manager s))"
  by (auto simp: updateState_def Let_def split: if_splits)

lemma updateState_length:
  "updateState idx st e s = Some s' \<Longrightarrow> length (jobs (manager s')) = length (jobs (manager s))"
  by (auto simp: updateState_def Let_def split: prod.splits if_splits)

lemma updateState_world:
  "updateState idx st e s = Some s' \<Longrightarrow> world s' = world s"
  by (auto simp: updateState_def Let_def split: prod.splits if_splits)

lemma updateState_state:
  assumes "updateState idx st e s = Some s'"
  shows "state (lastState (jobs (manager s') ! idx)) =
           (if errors_Is e ErrSkipped then stateSkipped else st)"
    and "err (lastState (jobs (manager s') ! idx)) = (if errors_Is e ErrSkipped then None else e)"
  using assms
  by (auto simp: updateState_def Let_def split: prod.splits if_splits)

lemma updateState_duration_eq:
  assumes "updateState idx st e s = Some s'"
  shows "duration (lastState (jobs (manager s') ! idx)) =
           (if state (lastState (jobs (manager s) ! idx)) = stateRunning \<and> st = stateIdle
            then readings (clock s) (taken (clock s)) - updatedAt (lastState (jobs (manager s) ! idx))
            else duration (lastState (jobs (manager s) ! idx)))"
  using assms
  by (auto simp: updateState_def Let_def time_Now_def time_Since_def split: prod.splits if_splits)

lemma updateState_others:
  assumes "updateState idx st e s = Some s'" and "i \<noteq> idx"
  shows "jobs (manager s') ! i = jobs (manager s) ! i"
  using assms
  by (auto simp: updateState_def Let_def split: prod.splits if_splits)

lemma updateState_updatedAt:
  assumes "updateState idx st e s = Some s'"
  shows "updatedAt (lastState (jobs (manager s') ! idx)) =
           readings (clock s)
             (if state (lastState (jobs (manager s) ! idx)) = stateRunning \<and> st = stateIdle
              then taken (clock s) + 1 else taken (clock s))"
    and "readings (clock s') = readings (clock s)"
    and "taken (clock s') =
           (if state (lastState (jobs (manager s) ! idx)) = stateRunning \<and> st = stateIdle
            then taken (clock s) + 2 else taken (clock s) + 1)"
  using assms
  by (auto simp: updateState_def Let_def time_Now_def time_Since_def split: prod.splits if_splits)

lemma updateState_recorded_in_past:
  assumes "updateState idx st e s = Some s'" and "recorded_in_past s"
  shows "recorded_in_past s'"
proof -
  have mono: "monotonic (clock s)" using assms(2) by (simp add: recorded_in_past_def)
  have len: "length (jobs (manager s')) = length (jobs (manager s))"
    using assms(1) by (rule updateState_length)
  have rd: "readings (clock s') = readings (clock s)"
    using updateState_updatedAt(2)[OF assms(1)] .
  have tk: "taken (clock s) < taken (clock s')"
    using updateState_updatedAt(3)[OF assms(1)] by (simp split: if_splits)
  have late: "readings (clock s) n \<le> readings (clock s) (taken (clock s'))"
    if "n \<le> taken (clock s')" for n
    using mono that by (simp add: monotonic_def)
  have "updatedAt (lastState (jobs (manager s') ! i)) \<le> readings (clock s') (taken (clock s'))"
    if "i < length (jobs (manager s'))" for i
  proof (cases "i = idx")
    case True
    show ?thesis
      using True updateState_updatedAt(1)[OF assms(1)] updateState_updatedAt(3)[OF assms(1)] rd late
      by (simp split: if_splits)
  next
    case False
    have "updatedAt (lastState (jobs (manager s) ! i)) \<le> readings (clock s) (taken (clock s))"
      using assms(2) that len by (simp add: recorded_in_past_def list_all_length)
    also have "\<dots> \<le> readings (clock s) (taken (clock s'))"
      using late tk by simp
    finally show ?thesis using updateState_others[OF assms(1) False] rd by simp
  qed
  then show ?thesis
    using mono rd by (simp add: recorded_in_past_def list_all_length monotonic_def)
qed

lemma fresh_jobs_recorded_in_past:
  assumes "monotonic (clock s)" and "0 \<le> readings (clock s) 0"
    and "list_all (\<lambda>j. updatedAt (lastState j) = 0) (jobs (manager s))"
  shows "recorded_in_past s"
proof -
  have "readings (clock s) 0 \<le> readings (clock s) (taken (clock s))"
    using assms(1) unfolding monotonic_def by blast
  then have "0 \<le> readings (clock s) (taken (clock s))"
    using assms(2) by linarith
  then show ?thesis
    using assms(1,3) by (simp add: recorded_in_past_def list_all_length)
qed

lemma test_system_recorded_in_past: "recorded_in_past test_system"
  by (rule fresh_jobs_recorded_in_past)
     (simp_all add: test_system_def test_manager_def test_clock_def monotonic_def
        AddFunc_def NewManager_def newJob_def)

lemma running_system_eq: "updateState 0 stateRunning None test_system = Some running_system"
  using updateState_in_range[of 0 test_system stateRunning None]
  by (auto simp: running_system_def test_system_def test_manager_def AddFunc_def NewManager_def)

lemma running_system_recorded_in_past: "recorded_in_past running_system"
  using updateState_recorded_in_past[OF running_system_eq test_system_recorded_in_past] .

lemma running_system_job:
  "length (jobs (manager running_system)) = 2"
  "state (lastState (jobs (manager running_system) ! 0)) = stateRunning"
  "updatedAt (lastState (jobs (manager running_system) ! 0)) = 0"
  "readings (clock running_system) = (\<lambda>n. 5 * int n)"
  "taken (clock running_system) = 1"
  using updateState_length[OF running_system_eq] updateState_state(1)[OF running_system_eq]
    updateState_updatedAt[OF running_system_eq]
  by (simp_all add: errors_Is_def test_system_def test_manager_def test_clock_def AddFunc_def
        NewManager_def newJob_def)

text \<open>
  C4. Whenever the error passed to \<^verbatim>\<open>updateState\<close> matches \<^verbatim>\<open>ErrSkipped\<close> along its
  chain of wrapped errors (the sentinel itself, or an error that wraps it), the call stores
  the phase \<open>skipped\<close> and a nil error, whatever phase it was asked to store: never the
  phase \<open>idle\<close> with the sentinel as the error.
\<close>

theorem updateState_skipped:
  assumes "errors_Is e ErrSkipped" and "idx < length (jobs (manager s))"
  shows "\<exists>s'. updateState idx st e s = Some s'
           \<and> state (lastState (jobs (manager s') ! idx)) = stateSkipped
           \<and> err (lastState (jobs (manager s') ! idx)) = None"
  using assms updateState_in_range[of idx s st e] updateState_state[of idx st e s] by auto

theorem updateState_skipped_witness:
  "errors_Is (Some (ErrWrap ''f1: skipped'' ErrSkipped)) ErrSkipped
   \<and> 0 < length (jobs (manager running_system))
   \<and> (\<exists>s'. updateState 0 stateIdle (Some (ErrWrap ''f1: skipped'' ErrSkipped)) running_system = Some s'
           \<and> state (lastState (jobs (manager s') ! 0)) = stateSkipped
           \<and> err (lastState (jobs (manager s') ! 0)) = None)"
proof -
  have h1: "errors_Is (Some (ErrWrap ''f1: skipped'' ErrSkipped)) ErrSkipped"
    by (simp add: errors_Is_def)
  have h2: "0 < length (jobs (manager running_system))"
    by (simp add: running_system_job)
  show ?thesis
    using h1 h2 updateState_skipped[OF h1 h2, of stateIdle] by simp
qed

text \<open>
  C5, as amended. \<^verbatim>\<open>updateState\<close> stores a new duration exactly when the phase stored
  before the call is \<open>running\<close> and the phase passed to the call is \<open>idle\<close>. That includes
  the call whose error matches \<^verbatim>\<open>ErrSkipped\<close>: the phase stored after it is \<open>skipped\<close>,
  not \<open>idle\<close>, and the duration is recorded all the same. The duration is then the reading
  of the clock in this call minus the update time stored before, which is not negative; the
  update time a call stores is the reading of \<^verbatim>\<open>time.Now\<close> in that call, so the update
  time stored before is the moment the phase \<open>running\<close> was recorded. In every other call
  the duration of the job stays as it was, and the records of the other jobs are never
  touched.
\<close>

theorem updateState_duration:
  assumes "idx < length (jobs (manager s))" and "recorded_in_past s"
  shows "\<exists>s'. updateState idx st e s = Some s' \<and>
           (let old = lastState (jobs (manager s) ! idx); new = lastState (jobs (manager s') ! idx)
            in state new = (if errors_Is e ErrSkipped then stateSkipped else st) \<and>
               (if state old = stateRunning \<and> st = stateIdle
                then duration new = readings (clock s) (taken (clock s)) - updatedAt old
                     \<and> 0 \<le> duration new
                     \<and> updatedAt new = readings (clock s) (taken (clock s) + 1)
                else duration new = duration old
                     \<and> updatedAt new = readings (clock s) (taken (clock s)))) \<and>
           (\<forall>i. i \<noteq> idx \<longrightarrow> jobs (manager s') ! i = jobs (manager s) ! i)"
proof -
  obtain s' where s': "updateState idx st e s = Some s'"
    using updateState_in_range[OF assms(1)] by blast
  have past: "updatedAt (lastState (jobs (manager s) ! idx)) \<le> readings (clock s) (taken (clock s))"
    using assms by (simp add: recorded_in_past_def list_all_length)
  show ?thesis
    using s' past updateState_duration_eq[OF s'] updateState_others[OF s']
      updateState_updatedAt(1)[OF s'] updateState_state(1)[OF s']
    by (auto simp: Let_def)
qed

theorem updateState_duration_witness:
  "0 < length (jobs (manager running_system)) \<and> recorded_in_past running_system
   \<and> state (lastState (jobs (manager running_system) ! 0)) = stateRunning
   \<and> (\<exists>s'. updateState 0 stateIdle None running_system = Some s'
          \<and> state (lastState (jobs (manager s') ! 0)) = stateIdle
          \<and> duration (lastState (jobs (manager s') ! 0)) = 5
          \<and> updatedAt (lastState (jobs (manager s') ! 0)) = 10
          \<and> jobs (manager s') ! 1 = jobs (manager running_system) ! 1)"
proof -
  have h1: "0 < length (jobs (manager running_system))"
    by (simp add: running_system_job)
  obtain s' where s': "updateState 0 stateIdle None running_system = Some s'"
    and d: "(let old = lastState (jobs (manager running_system) ! 0);
                 new = lastState (jobs (manager s') ! 0)
             in state new = (if errors_Is None ErrSkipped then stateSkipped else stateIdle) \<and>
                (if state old = stateRunning \<and> stateIdle = stateIdle
                 then duration new =
                        readings (clock running_system) (taken (clock running_system)) - updatedAt old
                      \<and> 0 \<le> duration new
                      \<and> updatedAt new =
                          readings (clock running_system) (taken (clock running_system) + 1)
                 else duration new = duration old
                      \<and> updatedAt new =
                          readings (clock running_system) (taken (clock running_system))))"
    and o: "\<forall>i. i \<noteq> 0 \<longrightarrow> jobs (manager s') ! i = jobs (manager running_system) ! i"
    using updateState_duration[OF h1 running_system_recorded_in_past, of stateIdle None]
    by blast
  have "state (lastState (jobs (manager s') ! 0)) = stateIdle"
    and "duration (lastState (jobs (manager s') ! 0)) = 5"
    and "updatedAt (lastState (jobs (manager s') ! 0)) = 10"
    using d by (simp_all add: Let_def running_system_job errors_Is_def)
  moreover have "jobs (manager s') ! 1 = jobs (manager running_system) ! 1"
    using o by simp
  ultimately show ?thesis
    using h1 running_system_recorded_in_past s' running_system_job(2) by blast
qed

text \<open>
  C5 as stated fails: from the phase \<open>running\<close>, the call that is asked to store \<open>idle\<close>
  with the error \<^verbatim>\<open>ErrSkipped\<close> stores the phase \<open>skipped\<close>, and it changes the stored
  duration: the transition of the record is from \<open>running\<close> to \<open>skipped\<close>.
\<close>

theorem updateState_duration_counterexample:
  "updateState 0 stateIdle (Some ErrSkipped) running_system = Some skipped_system
   \<and> state (lastState (jobs (manager running_system) ! 0)) = stateRunning
   \<and> duration (lastState (jobs (manager running_system) ! 0)) = 0
   \<and> state (lastState (jobs (manager skipped_system) ! 0)) = stateSkipped
   \<and> duration (lastState (jobs (manager skipped_system) ! 0)) = 5"
proof -
  have u: "updateState 0 stateIdle (Some ErrSkipped) running_system = Some skipped_system"
    using updateState_in_range[of 0 running_system stateIdle "Some ErrSkipped"]
    by (auto simp: skipped_system_def running_system_job)
  have "duration (lastState (jobs (manager running_system) ! 0)) = 0"
    using updateState_duration_eq[OF running_system_eq]
    by (simp add: test_system_def test_manager_def AddFunc_def NewManager_def newJob_def)
  moreover have "state (lastState (jobs (manager skipped_system) ! 0)) = stateSkipped"
    using updateState_state(1)[OF u] by (simp add: errors_Is_def)
  moreover have "duration (lastState (jobs (manager skipped_system) ! 0)) = 5"
    using updateState_duration_eq[OF u] by (simp add: running_system_job)
  ultimately show ?thesis
    using u running_system_job(2) by simp
qed

section \<open>Properties of validation\<close>

lemma validateJobs_loop_duplicate:
  assumes "distinct (lower_names toLower pre)" and "set (lower_names toLower pre) \<inter> names = {}"
    and "toLower (name j) \<in> names \<union> set (lower_names toLower pre)"
    and "schedules_parse parse pre"
  shows "validateJobs_loop parse toLower names (pre @ j # rest) = (name j, Some ErrDuplicate)"
  using assms
proof (induction pre arbitrary: names)
  case Nil
  then show ?case by (simp add: lower_names_def)
next
  case (Cons p pre)
  have notin: "toLower (name p) \<notin> names"
    using Cons.prems(2) by (auto simp: lower_names_def)
  have ok: "IsActive (schedule p) \<Longrightarrow> parse (schedule p) = None"
    using Cons.prems(4) by (simp add: schedules_parse_def)
  have IH: "validateJobs_loop parse toLower (insert (toLower (name p)) names) (pre @ j # rest)
              = (name j, Some ErrDuplicate)"
  proof (rule Cons.IH)
    show "distinct (lower_names toLower pre)" using Cons.prems(1) by (simp add: lower_names_def)
    show "set (lower_names toLower pre) \<inter> insert (toLower (name p)) names = {}"
      using Cons.prems(1,2) by (auto simp: lower_names_def)
    show "toLower (name j) \<in> insert (toLower (name p)) names \<union> set (lower_names toLower pre)"
      using Cons.prems(3) by (auto simp: lower_names_def)
    show "schedules_parse parse pre" using Cons.prems(4) by (simp add: schedules_parse_def)
  qed
  show ?case using notin ok IH by (simp add: Let_def)
qed

text \<open>When validation finds nothing, the lower-cased names are distinct and every active schedule parses.\<close>

lemma validateJobs_loop_ok:
  assumes "validateJobs_loop parse toLower names js = ([], None)"
  shows "distinct (lower_names toLower js) \<and> set (lower_names toLower js) \<inter> names = {} \<and> schedules_parse parse js"
  using assms
proof (induction js arbitrary: names)
  case Nil
  then show ?case by (simp add: lower_names_def schedules_parse_def)
next
  case (Cons j js)
  have notin: "toLower (name j) \<notin> names"
    using Cons.prems by (auto simp: Let_def split: if_splits)
  have ok: "IsActive (schedule j) \<longrightarrow> parse (schedule j) = None"
    using Cons.prems notin by (auto simp: Let_def split: if_splits option.splits)
  have rest: "validateJobs_loop parse toLower (insert (toLower (name j)) names) js = ([], None)"
    using Cons.prems notin by (auto simp: Let_def split: if_splits option.splits)
  show ?case
    using Cons.IH[OF rest] notin ok by (auto simp: lower_names_def schedules_parse_def)
qed

lemma validateJobs_ok:
  assumes "validateJobs parse toLower cm = ([], None)"
  shows "distinct (lower_names toLower (jobs cm))" and "schedules_parse parse (jobs cm)"
  using validateJobs_loop_ok[of parse toLower "{}" "jobs cm"] assms by (simp_all add: validateJobs_def)

text \<open>
  C7, as amended. Two names are equal for validation when \<^verbatim>\<open>strings.ToLower\<close> maps them
  to the same string; the statement holds whatever that function is. Let \<open>j\<close> be the first
  job whose lower-cased name has occurred before it in registration order (the lower-cased
  names before \<open>j\<close> are distinct, and one of them is the lower-cased name of \<open>j\<close>). When
  every active schedule registered before \<open>j\<close> parses, validation fails with
  \<^verbatim>\<open>ErrDuplicate\<close> and returns the name of \<open>j\<close> as it was registered. (The schedule
  of a job is parsed in the same pass, after its name is checked: an earlier job whose schedule
  does not parse ends validation first.)
\<close>

theorem validateJobs_duplicate:
  assumes "jobs cm = pre @ j # rest"
    and "distinct (lower_names toLower pre)"
    and "toLower (name j) \<in> set (lower_names toLower pre)"
    and "schedules_parse parse pre"
  shows "validateJobs parse toLower cm = (name j, Some ErrDuplicate)"
  using validateJobs_loop_duplicate[where pre=pre and names="{}" and j=j and parse=parse and rest=rest and toLower=toLower] assms
  by (simp add: validateJobs_def)

theorem validateJobs_duplicate_witness:
  "jobs case_manager = [newJob ''f1'' ''0 0 * * *'' newCronFunc False]
      @ newJob ''F1'' ''0 0 * * *'' newCronFunc False # []
   \<and> distinct (lower_names ascii_ToLower [newJob ''f1'' ''0 0 * * *'' (newCronFunc :: coord Func) False])
   \<and> ascii_ToLower (name (newJob ''F1'' ''0 0 * * *'' (newCronFunc :: coord Func) False))
        \<in> set (lower_names ascii_ToLower [newJob ''f1'' ''0 0 * * *'' (newCronFunc :: coord Func) False])
   \<and> schedules_parse test_parse [newJob ''f1'' ''0 0 * * *'' (newCronFunc :: coord Func) False]
   \<and> validateJobs test_parse ascii_ToLower case_manager = (''F1'', Some ErrDuplicate)"
proof -
  let ?f1 = "newJob ''f1'' ''0 0 * * *'' (newCronFunc :: coord Func) False"
  let ?F1 = "newJob ''F1'' ''0 0 * * *'' (newCronFunc :: coord Func) False"
  have low: "ascii_ToLower ''F1'' = ''f1''" "ascii_ToLower ''f1'' = ''f1''"
    by code_simp+
  have h1: "jobs case_manager = [?f1] @ ?F1 # []"
    by (simp add: case_manager_def AddFunc_def NewManager_def)
  have h2: "distinct (lower_names ascii_ToLower [?f1])"
    by (simp add: lower_names_def)
  have h3: "ascii_ToLower (name ?F1) \<in> set (lower_names ascii_ToLower [?f1])"
    by (simp add: lower_names_def newJob_def low)
  have h4: "schedules_parse test_parse [?f1]"
    by (simp add: schedules_parse_def newJob_def test_parse_def)
  have "validateJobs test_parse ascii_ToLower case_manager = (name ?F1, Some ErrDuplicate)"
    using validateJobs_duplicate[OF h1 h2 h3 h4] .
  then show ?thesis
    using h1 h2 h3 h4 by (simp add: newJob_def)
qed

text \<open>
  C7 as stated fails: the second and third job of this list have the names \<^verbatim>\<open>b\<close> and
  \<^verbatim>\<open>B\<close>, equal up to case, and validation fails with the parse error of the first job and
  returns that job's name, whatever the lower-casing function is.
\<close>

theorem validateJobs_duplicate_counterexample:
  "name (jobs bad_first_manager ! 1) = ''b''
   \<and> name (jobs bad_first_manager ! 2) = ''B''
   \<and> ascii_ToLower ''b'' = ascii_ToLower ''B''
   \<and> (\<forall>toLower. validateJobs test_parse toLower bad_first_manager =
         (''a'', Some (ErrOther ''expected exactly 5 fields, found 1: [invalid]'')))"
proof -
  have low: "ascii_ToLower ''B'' = ''b''" "ascii_ToLower ''b'' = ''b''"
    by code_simp+
  have "name (jobs bad_first_manager ! 1) = ''b''" and "name (jobs bad_first_manager ! 2) = ''B''"
    by (simp_all add: bad_first_manager_def AddFunc_def NewManager_def newJob_def)
  moreover have "validateJobs test_parse toLower bad_first_manager =
       (''a'', Some (ErrOther ''expected exactly 5 fields, found 1: [invalid]''))" for toLower
    by (simp add: validateJobs_def bad_first_manager_def AddFunc_def NewManager_def newJob_def
          test_parse_def IsActive_def)
  ultimately show ?thesis using low by simp
qed
section \<open>Properties of activation\<close>

lemma Run_body_inactive:
  assumes "idx < length (jobs (manager s))" and "\<not> IsActive (schedule (jobs (manager s) ! idx))"
  shows "\<exists>s1. Run_body parse ctx idx s = (None, s1)
           \<and> length (jobs (manager s1)) = length (jobs (manager s))
           \<and> cron (manager s1) = cron (manager s)
           \<and> middleware (manager s1) = middleware (manager s)
           \<and> world s1 = world s
           \<and> (\<forall>i. i \<noteq> idx \<longrightarrow> jobs (manager s1) ! i = jobs (manager s) ! i)
           \<and> name (jobs (manager s1) ! idx) = name (jobs (manager s) ! idx)
           \<and> schedule (jobs (manager s1) ! idx) = schedule (jobs (manager s) ! idx)
           \<and> isMaintenance (jobs (manager s1) ! idx) = isMaintenance (jobs (manager s) ! idx)
           \<and> fn (jobs (manager s1) ! idx) = fn (jobs (manager s) ! idx)
           \<and> entryID (jobs (manager s1) ! idx) = - int idx
           \<and> cronFn (jobs (manager s1) ! idx) =
               Some (CronFnCtx idx (name (jobs (manager s) ! idx))
                       (isMaintenance (jobs (manager s) ! idx)) (fn (jobs (manager s) ! idx)))
           \<and> state (lastState (jobs (manager s1) ! idx)) = stateDisabled
           \<and> err (lastState (jobs (manager s1) ! idx)) = None"
  using assms
  by (simp add: Run_body_def updateID_def updateState_def Let_def time_Now_def errors_Is_def
      split: prod.splits)

lemma Run_body_active:
  assumes "idx < length (jobs (manager s))" and "IsActive (schedule (jobs (manager s) ! idx))"
    and "parse (schedule (jobs (manager s) ! idx)) = None"
  shows "\<exists>s1. Run_body parse ctx idx s = (None, s1)
           \<and> length (jobs (manager s1)) = length (jobs (manager s))
           \<and> cron (manager s1) =
               (cron (manager s))
                 \<lparr>entries := entries (cron (manager s)) @
                    [\<lparr>e_ID = nextID (cron (manager s)) + 1,
                      e_spec = schedule (jobs (manager s) ! idx), e_Next = 0, e_Prev = 0,
                      e_cmd = (CronFnCtx idx (name (jobs (manager s) ! idx))
                                 (isMaintenance (jobs (manager s) ! idx)) (fn (jobs (manager s) ! idx)),
                               ctx)\<rparr>],
                  nextID := nextID (cron (manager s)) + 1\<rparr>
           \<and> middleware (manager s1) = middleware (manager s)
           \<and> world s1 = world s
           \<and> (\<forall>i. i \<noteq> idx \<longrightarrow> jobs (manager s1) ! i = jobs (manager s) ! i)
           \<and> name (jobs (manager s1) ! idx) = name (jobs (manager s) ! idx)
           \<and> schedule (jobs (manager s1) ! idx) = schedule (jobs (manager s) ! idx)
           \<and> isMaintenance (jobs (manager s1) ! idx) = isMaintenance (jobs (manager s) ! idx)
           \<and> fn (jobs (manager s1) ! idx) = fn (jobs (manager s) ! idx)
           \<and> entryID (jobs (manager s1) ! idx) = nextID (cron (manager s)) + 1
           \<and> cronFn (jobs (manager s1) ! idx) =
               Some (CronFnCtx idx (name (jobs (manager s) ! idx))
                       (isMaintenance (jobs (manager s) ! idx)) (fn (jobs (manager s) ! idx)))
           \<and> lastState (jobs (manager s1) ! idx) = lastState (jobs (manager s) ! idx)"
  using assms
  by (simp add: Run_body_def updateID_def cron_AddFunc_def Let_def)

lemma Run_body_continue:
  assumes "Run_body parse ctx idx s = (None, s1)"
  shows "idx < length (jobs (manager s))"
    and "IsActive (schedule (jobs (manager s) ! idx)) \<Longrightarrow> parse (schedule (jobs (manager s) ! idx)) = None"
  using assms
  by (auto simp: Run_body_def updateID_def cron_AddFunc_def Let_def
      split: if_splits option.splits prod.splits)

lemma Run_body_bad:
  assumes "idx < length (jobs (manager s))" and "IsActive (schedule (jobs (manager s) ! idx))"
    and "parse (schedule (jobs (manager s) ! idx)) = Some e"
  shows "Run_body parse ctx idx s =
           (Some (Returned (Some (Errorf_add (name (jobs (manager s) ! idx)) e))), s)"
  using assms
  by (simp add: Run_body_def cron_AddFunc_def Let_def)


lemma Run_body_same_tasks:
  assumes "Run_body parse ctx idx s = (None, s1)"
  shows "same_tasks s s1"
proof -
  have idx: "idx < length (jobs (manager s))"
    using Run_body_continue(1)[OF assms] .
  show ?thesis
  proof (cases "IsActive (schedule (jobs (manager s) ! idx))")
    case True
    show ?thesis
      using Run_body_active[where parse=parse and ctx=ctx, OF idx True Run_body_continue(2)[OF assms True]] assms
      unfolding same_tasks_def by (metis Pair_inject)
  next
    case False
    show ?thesis
      using Run_body_inactive[OF idx False, of parse ctx] assms
      unfolding same_tasks_def by (metis Pair_inject)
  qed
qed

lemma same_tasks_refl: "same_tasks s s"
  by (simp add: same_tasks_def)

lemma same_tasks_trans: "same_tasks s s1 \<Longrightarrow> same_tasks s1 s2 \<Longrightarrow> same_tasks s s2"
  by (simp add: same_tasks_def)

lemma Run_body_activated:
  assumes "Run_body parse ctx idx s = (None, s1)"
  shows "activated idx s1"
proof -
  have idx: "idx < length (jobs (manager s))"
    using Run_body_continue(1)[OF assms] .
  show ?thesis
  proof (cases "IsActive (schedule (jobs (manager s) ! idx))")
    case True
    obtain s1' where "Run_body parse ctx idx s = (None, s1')"
      and "length (jobs (manager s1')) = length (jobs (manager s))"
      and "name (jobs (manager s1') ! idx) = name (jobs (manager s) ! idx)"
      and "schedule (jobs (manager s1') ! idx) = schedule (jobs (manager s) ! idx)"
      and "isMaintenance (jobs (manager s1') ! idx) = isMaintenance (jobs (manager s) ! idx)"
      and "fn (jobs (manager s1') ! idx) = fn (jobs (manager s) ! idx)"
      and "cronFn (jobs (manager s1') ! idx) =
               Some (CronFnCtx idx (name (jobs (manager s) ! idx))
                       (isMaintenance (jobs (manager s) ! idx)) (fn (jobs (manager s) ! idx)))"
      using Run_body_active[where parse=parse and ctx=ctx, OF idx True Run_body_continue(2)[OF assms True]] by blast
    then show ?thesis
      using assms idx True by (simp add: activated_def Let_def)
  next
    case False
    obtain s1' where "Run_body parse ctx idx s = (None, s1')"
      and "length (jobs (manager s1')) = length (jobs (manager s))"
      and "name (jobs (manager s1') ! idx) = name (jobs (manager s) ! idx)"
      and "schedule (jobs (manager s1') ! idx) = schedule (jobs (manager s) ! idx)"
      and "isMaintenance (jobs (manager s1') ! idx) = isMaintenance (jobs (manager s) ! idx)"
      and "fn (jobs (manager s1') ! idx) = fn (jobs (manager s) ! idx)"
      and "entryID (jobs (manager s1') ! idx) = - int idx"
      and "cronFn (jobs (manager s1') ! idx) =
               Some (CronFnCtx idx (name (jobs (manager s) ! idx))
                       (isMaintenance (jobs (manager s) ! idx)) (fn (jobs (manager s) ! idx)))"
      and "state (lastState (jobs (manager s1') ! idx)) = stateDisabled"
      and "err (lastState (jobs (manager s1') ! idx)) = None"
      using Run_body_inactive[OF idx False, of parse ctx] by blast
    then show ?thesis
      using assms idx by (simp add: activated_def Let_def)
  qed
qed

lemma Run_body_others:
  assumes "Run_body parse ctx idx s = (None, s1)" and "k \<noteq> idx"
  shows "jobs (manager s1) ! k = jobs (manager s) ! k"
proof -
  have idx: "idx < length (jobs (manager s))"
    using Run_body_continue(1)[OF assms(1)] .
  show ?thesis
  proof (cases "IsActive (schedule (jobs (manager s) ! idx))")
    case True
    show ?thesis
      using Run_body_active[where parse=parse and ctx=ctx, OF idx True Run_body_continue(2)[OF assms(1) True]] assms
      by (metis Pair_inject)
  next
    case False
    show ?thesis
      using Run_body_inactive[OF idx False, of parse ctx] assms
      by (metis Pair_inject)
  qed
qed

lemma Run_body_keeps_activated:
  assumes "Run_body parse ctx idx s = (None, s1)" and "activated k s"
  shows "activated k s1"
proof (cases "k = idx")
  case True
  then show ?thesis using Run_body_activated[OF assms(1)] by simp
next
  case False
  have "length (jobs (manager s1)) = length (jobs (manager s))"
    using Run_body_same_tasks[OF assms(1)] by (simp add: same_tasks_def)
  then show ?thesis
    using assms(2) Run_body_others[OF assms(1) False] by (simp add: activated_def)
qed

lemma Run_body_cron_ok:
  assumes "Run_body parse ctx idx s = (None, s1)" and "cron_ok s"
  shows "cron_ok s1"
proof -
  have idx: "idx < length (jobs (manager s))"
    using Run_body_continue(1)[OF assms(1)] .
  have same: "same_tasks s s1"
    using Run_body_same_tasks[OF assms(1)] .
  have len: "length (jobs (manager s1)) = length (jobs (manager s))"
    and sched: "\<And>i. i < length (jobs (manager s)) \<Longrightarrow>
                  schedule (jobs (manager s1) ! i) = schedule (jobs (manager s) ! i)"
    using same by (simp_all add: same_tasks_def)
  have old: "0 \<le> nextID (cron (manager s))"
    and olds: "\<And>e. e \<in> set (entries (cron (manager s))) \<Longrightarrow>
        0 < e_ID e \<and> e_ID e \<le> nextID (cron (manager s)) \<and>
        closure_idx (fst (e_cmd e)) < length (jobs (manager s1)) \<and>
        IsActive (schedule (jobs (manager s1) ! closure_idx (fst (e_cmd e))))"
    using assms(2) len sched
    by (auto simp: cron_ok_def list_all_iff)
  show ?thesis
  proof (cases "IsActive (schedule (jobs (manager s) ! idx))")
    case False
    have "cron (manager s1) = cron (manager s)"
      using Run_body_inactive[OF idx False, of parse ctx] assms(1) by (metis Pair_inject)
    then show ?thesis
      using old olds by (simp add: cron_ok_def list_all_iff)
  next
    case True
    have c: "cron (manager s1) =
               (cron (manager s))
                 \<lparr>entries := entries (cron (manager s)) @
                    [\<lparr>e_ID = nextID (cron (manager s)) + 1,
                      e_spec = schedule (jobs (manager s) ! idx), e_Next = 0, e_Prev = 0,
                      e_cmd = (CronFnCtx idx (name (jobs (manager s) ! idx))
                                 (isMaintenance (jobs (manager s) ! idx)) (fn (jobs (manager s) ! idx)),
                               ctx)\<rparr>],
                  nextID := nextID (cron (manager s)) + 1\<rparr>"
      using Run_body_active[where parse=parse and ctx=ctx, OF idx True Run_body_continue(2)[OF assms(1) True]] assms(1)
      by (metis Pair_inject)
    have act: "IsActive (schedule (jobs (manager s1) ! idx))"
      using True sched[OF idx] by simp
    have olds': "e_ID e \<le> nextID (cron (manager s)) + 1"
      if "e \<in> set (entries (cron (manager s)))" for e
      using olds[OF that] by linarith
    show ?thesis
      unfolding cron_ok_def c list_all_iff
      using old olds olds' idx len act by auto
  qed
qed

lemma Run_loop_invariant:
  assumes "Run_loop parse ctx idxs s = (None, s')" and "P s"
    and "\<And>idx s s1. P s \<Longrightarrow> Run_body parse ctx idx s = (None, s1) \<Longrightarrow> P s1"
  shows "P s'"
  using assms(1,2)
proof (induction idxs arbitrary: s)
  case Nil
  then show ?case by simp
next
  case (Cons idx rest)
  obtain r s1 where b: "Run_body parse ctx idx s = (r, s1)"
    by (cases "Run_body parse ctx idx s")
  have r: "r = None" using Cons.prems(1) b by (cases r) simp_all
  have "Run_loop parse ctx rest s1 = (None, s')"
    using Cons.prems(1) b r by simp
  moreover have "P s1" using assms(3)[OF Cons.prems(2)] b r by simp
  ultimately show ?case by (rule Cons.IH)
qed

lemma Run_loop_activated:
  assumes "Run_loop parse ctx idxs s = (None, s')" and "k \<in> set idxs"
  shows "activated k s'"
  using assms
proof (induction idxs arbitrary: s)
  case Nil
  then show ?case by simp
next
  case (Cons idx rest)
  obtain r s1 where b: "Run_body parse ctx idx s = (r, s1)"
    by (cases "Run_body parse ctx idx s")
  have r: "r = None" using Cons.prems(1) b by (cases r) simp_all
  have rest: "Run_loop parse ctx rest s1 = (None, s')"
    using Cons.prems(1) b r by simp
  show ?case
  proof (cases "k \<in> set rest")
    case True
    then show ?thesis using Cons.IH[OF rest] by simp
  next
    case False
    then have "k = idx" using Cons.prems(2) by simp
    then have "activated k s1" using Run_body_activated b r by blast
    then show ?thesis
      using Run_loop_invariant[OF rest, of "activated k"] Run_body_keeps_activated by blast
  qed
qed

lemma Run_loop_total:
  assumes "\<forall>idx \<in> set idxs. idx < length (jobs (manager s))"
    and "schedules_parse parse (jobs (manager s))"
  shows "\<exists>s'. Run_loop parse ctx idxs s = (None, s')"
  using assms
proof (induction idxs arbitrary: s)
  case Nil
  then show ?case by simp
next
  case (Cons idx rest)
  have idx: "idx < length (jobs (manager s))" using Cons.prems(1) by simp
  have ok: "IsActive (schedule (jobs (manager s) ! idx)) \<Longrightarrow> parse (schedule (jobs (manager s) ! idx)) = None"
    using Cons.prems(2) idx by (simp add: schedules_parse_def list_all_length)
  obtain s1 where b: "Run_body parse ctx idx s = (None, s1)"
    using Run_body_active[where parse=parse and ctx=ctx, OF idx _ ok] Run_body_inactive[OF idx, of parse ctx]
    by (cases "IsActive (schedule (jobs (manager s) ! idx))") blast+
  have same: "same_tasks s s1" using Run_body_same_tasks[OF b] .
  have "\<forall>i \<in> set rest. i < length (jobs (manager s1))"
    using Cons.prems(1) same by (simp add: same_tasks_def)
  moreover have "schedules_parse parse (jobs (manager s1))"
    using Cons.prems(2) same by (simp add: schedules_parse_def list_all_length same_tasks_def)
  ultimately obtain s' where "Run_loop parse ctx rest s1 = (None, s')"
    using Cons.IH by blast
  then show ?case using b by simp
qed

lemma Run_validation_error:
  assumes "validateJobs parse toLower (manager s) = (n, e)" and "n \<noteq> []"
  shows "Run parse toLower nextFire ctx s = (Returned (Some (Errorf_validate e n)), s)"
  using assms by (simp add: Run_def)

lemma Run_loop_upt_total:
  assumes "schedules_parse parse (jobs (manager s))"
  shows "\<exists>s1. Run_loop parse ctx [0..<length (jobs (manager s))] s = (None, s1)"
  using Run_loop_total[of "[0..<length (jobs (manager s))]" s parse ctx] assms by simp

lemma Run_success:
  assumes "validateJobs parse toLower (manager s) = ([], e)"
    and "Run_loop parse ctx [0..<length (jobs (manager s))] s = (None, s1)"
  shows "Run parse toLower nextFire ctx s =
           (Returned None, s1\<lparr>manager := (manager s1)\<lparr>cron := fst (cron_Start nextFire (clock s1) (cron (manager s1)))\<rparr>,
                 clock := snd (cron_Start nextFire (clock s1) (cron (manager s1)))\<rparr>)"
  using assms by (simp add: Run_def case_prod_beta)

lemma Run_returns_nil:
  assumes "Run parse toLower nextFire ctx s = (Returned None, s')"
  obtains s1 where "Run_loop parse ctx [0..<length (jobs (manager s))] s = (None, s1)"
    and "s' = s1\<lparr>manager := (manager s1)\<lparr>cron := fst (cron_Start nextFire (clock s1) (cron (manager s1)))\<rparr>,
                 clock := snd (cron_Start nextFire (clock s1) (cron (manager s1)))\<rparr>"
proof -
  obtain n e where v: "validateJobs parse toLower (manager s) = (n, e)"
    by (cases "validateJobs parse toLower (manager s)")
  have n: "n = []" using assms v by (auto simp: Run_def split: if_splits)
  obtain r s1 where l: "Run_loop parse ctx [0..<length (jobs (manager s))] s = (r, s1)"
    by (cases "Run_loop parse ctx [0..<length (jobs (manager s))] s")
  have body_err: "r1 \<noteq> Some (Returned None)"
    if "Run_body parse ctx idx t = (r1, t1)" for idx t r1 t1
    using that
    by (auto simp: Run_body_def Let_def split: if_splits option.splits prod.splits)
  have loop_err: "r2 \<noteq> Some (Returned None)"
    if "Run_loop parse ctx idxs t = (r2, t2)" for idxs t r2 t2
    using that
  proof (induction idxs arbitrary: t)
    case Nil
    then show ?case by auto
  next
    case (Cons idx rest)
    obtain r1 t1 where b: "Run_body parse ctx idx t = (r1, t1)"
      by (cases "Run_body parse ctx idx t")
    show ?case
    proof (cases r1)
      case None
      then show ?thesis using Cons b by simp
    next
      case (Some a)
      then show ?thesis using Cons.prems b body_err[OF b] by auto
    qed
  qed
  have "r = None"
  proof (cases r)
    case None
    then show ?thesis .
  next
    case (Some a)
    then have "Run parse toLower nextFire ctx s = (a, s1)" using v n l by (simp add: Run_def)
    then have "a = Returned None" using assms by simp
    then show ?thesis using loop_err[OF l] Some by simp
  qed
  then show ?thesis
    using that[of s1] assms v n l by (simp add: Run_def case_prod_beta)
qed

lemma cron_Start_running: "running (fst (cron_Start nextFire clk c))"
  by (simp add: cron_Start_def case_prod_beta)

lemma cron_Start_nextID: "nextID (fst (cron_Start nextFire clk c)) = nextID c"
  by (simp add: cron_Start_def case_prod_beta)

lemma cron_Start_entries:
  assumes "e' \<in> set (entries (fst (cron_Start nextFire clk c)))"
  obtains e where "e \<in> set (entries c)" and "e_ID e' = e_ID e" and "e_cmd e' = e_cmd e"
    and "e_spec e' = e_spec e"
  using assms by (auto simp: cron_Start_def case_prod_beta split: if_splits)

lemma entryIndex_None:
  assumes "\<forall>e \<in> set es. e_ID e \<noteq> k" and "m k = None"
  shows "entryIndex es m k = None"
  using assms by (induction es arbitrary: m) auto

lemma State_nth:
  assumes "idx < length (jobs cm)"
  shows "State cm ! idx = jobSnapshot (entryIndex (cron_Entries (cron cm)) Map.empty) (jobs cm ! idx)"
  using assms by (simp add: State_def)

lemma jobSnapshot_no_entry:
  assumes "index (entryID j) = None"
  shows "LastRun (jobSnapshot index j) = 0" and "NextRun (jobSnapshot index j) = 0"
    and "LastState (jobSnapshot index j) = cronState_string (state (lastState j))"
    and "ID (jobSnapshot index j) = entryID j"
  using assms by (simp_all add: jobSnapshot_def Let_def)

lemma ManualRun_loop_first:
  assumes "i < length js" and "equalFold (name (js ! i)) ident"
    and "\<forall>k < i. \<not> equalFold (name (js ! k)) ident"
  shows "ManualRun_loop equalFold js ctx ident s =
           (case cronFn (js ! i) of
              None \<Rightarrow> (Panicked ''invalid memory address or nil pointer dereference'', s)
            | Some c \<Rightarrow> cronFnCtx c ctx s)"
  using assms
proof (induction js arbitrary: i)
  case Nil
  then show ?case by simp
next
  case (Cons j js)
  show ?case
  proof (cases i)
    case 0
    then show ?thesis using Cons.prems by simp
  next
    case (Suc i')
    have no: "\<not> equalFold (name j) ident"
      using Cons.prems(3) Suc by auto
    have "ManualRun_loop equalFold js ctx ident s =
           (case cronFn (js ! i') of
              None \<Rightarrow> (Panicked ''invalid memory address or nil pointer dereference'', s)
            | Some c \<Rightarrow> cronFnCtx c ctx s)"
    proof (rule Cons.IH)
      show "i' < length js" using Cons.prems(1) Suc by simp
      show "equalFold (name (js ! i')) ident" using Cons.prems(2) Suc by simp
      show "\<forall>k<i'. \<not> equalFold (name (js ! k)) ident"
        using Cons.prems(3) Suc by auto
    qed
    then show ?thesis using no Suc by simp
  qed
qed

lemma configured_fresh:
  assumes "configured cm"
  shows "cron cm = cron_New \<and> list_all (\<lambda>j. cronFn j = None \<and> entryID j = 0) (jobs cm)"
  using assms
  by (induction rule: configured.induct)
     (simp_all add: NewManager_def AddFunc_def Add_def AddMaintenanceFunc_def Use_def newJob_def)

lemma cron_New_ok:
  assumes "cron (manager s) = cron_New"
  shows "cron_ok s"
  using assms by (simp add: cron_ok_def cron_New_def)

lemma Run_loop_same_tasks:
  assumes "Run_loop parse ctx idxs s = (None, s1)"
  shows "same_tasks s s1"
  using Run_loop_invariant[OF assms, of "same_tasks s"] same_tasks_refl same_tasks_trans
    Run_body_same_tasks by blast

lemma Run_loop_cron_ok:
  assumes "Run_loop parse ctx idxs s = (None, s1)" and "cron_ok s"
  shows "cron_ok s1"
  using Run_loop_invariant[OF assms(1), of cron_ok] assms(2) Run_body_cron_ok by blast

lemma manual_first_Run:
  "fst (Run test_parse ascii_ToLower test_next Map.empty manual_first_system) = Returned None"
  "entryID (jobs (manager (snd (Run test_parse ascii_ToLower test_next Map.empty manual_first_system))) ! 0) = 0"
proof -
  have low: "ascii_ToLower ''f5'' = ''f5''" "ascii_ToLower ''f1'' = ''f1''"
    by code_simp+
  show "fst (Run test_parse ascii_ToLower test_next Map.empty manual_first_system) = Returned None"
    by (simp add: Run_def Run_body_def validateJobs_def manual_first_system_def AddFunc_def
          NewManager_def newJob_def test_parse_def low IsActive_def updateID_def updateState_def
          Let_def time_Now_def test_clock_def errors_Is_def cron_AddFunc_def cron_New_def
          cron_Start_def upt_rec)
  show "entryID (jobs (manager (snd (Run test_parse ascii_ToLower test_next Map.empty manual_first_system))) ! 0) = 0"
    by (simp add: Run_def Run_body_def validateJobs_def manual_first_system_def AddFunc_def
          NewManager_def newJob_def test_parse_def low IsActive_def updateID_def updateState_def
          Let_def time_Now_def test_clock_def errors_Is_def cron_AddFunc_def cron_New_def
          cron_Start_def upt_rec)
qed

lemma manual_second_next:
  "NextRun (State (manager (snd (Run test_parse ascii_ToLower test_next Map.empty
                                    manual_second_system))) ! 0) = 65"
proof -
  have low: "ascii_ToLower ''f5'' = ''f5''" "ascii_ToLower ''f1'' = ''f1''"
    by code_simp+
  show ?thesis
    by (simp add: Run_def Run_body_def validateJobs_def manual_second_system_def AddFunc_def
          NewManager_def newJob_def test_parse_def low IsActive_def updateID_def updateState_def
          Let_def time_Now_def test_clock_def errors_Is_def cron_AddFunc_def cron_New_def
          cron_Start_def cron_Entries_def State_def jobSnapshot_def test_next_def upt_rec)
qed

lemma ManualRun_loop_nil:
  assumes "list_all (\<lambda>j. cronFn j = None) js" and "j \<in> set js" and "equalFold (name j) ident"
  shows "ManualRun_loop equalFold js ctx ident s =
           (Panicked ''invalid memory address or nil pointer dereference'', s)"
  using assms by (induction js) auto

lemma ManualRun_loop_not_found:
  assumes "list_all (\<lambda>j. \<not> equalFold (name j) ident) js"
  shows "ManualRun_loop equalFold js ctx ident s = (Returned (Some ErrNotFound), s)"
  using assms by (induction js) auto

lemma Run_all_activated:
  assumes "Run parse toLower nextFire ctx s = (Returned None, s')"
  shows "length (jobs (manager s')) = length (jobs (manager s))"
    and "\<forall>k < length (jobs (manager s)). activated k s'"
proof -
  obtain s1 where loop: "Run_loop parse ctx [0..<length (jobs (manager s))] s = (None, s1)"
    and s': "s' = s1\<lparr>manager := (manager s1)\<lparr>cron := fst (cron_Start nextFire (clock s1) (cron (manager s1)))\<rparr>,
                 clock := snd (cron_Start nextFire (clock s1) (cron (manager s1)))\<rparr>"
    using Run_returns_nil[OF assms] by blast
  have jobs': "jobs (manager s') = jobs (manager s1)"
    by (simp add: s')
  show "length (jobs (manager s')) = length (jobs (manager s))"
    using Run_loop_same_tasks[OF loop] jobs' by (simp add: same_tasks_def)
  show "\<forall>k < length (jobs (manager s)). activated k s'"
  proof (intro allI impI)
    fix k assume "k < length (jobs (manager s))"
    then have "activated k s1" using Run_loop_activated[OF loop, of k] by simp
    then show "activated k s'" using jobs' by (simp add: activated_def)
  qed
qed

lemma unnamed_validate:
  "validateJobs test_parse ascii_ToLower (manager unnamed_system) = ([], Some ErrDuplicate)"
  by (simp add: validateJobs_def unnamed_system_def AddFunc_def NewManager_def newJob_def
      test_parse_def ascii_ToLower_def IsActive_def)

lemma unnamed_Run:
  "fst (Run test_parse ascii_ToLower test_next Map.empty unnamed_system) = Returned None"
  "running (cron (manager (snd (Run test_parse ascii_ToLower test_next Map.empty unnamed_system))))"
  by (simp_all add: Run_def Run_body_def validateJobs_def unnamed_system_def AddFunc_def
      NewManager_def newJob_def test_parse_def ascii_ToLower_def IsActive_def updateID_def
      updateState_def Let_def time_Now_def test_clock_def errors_Is_def cron_Start_def
      cron_New_def upt_rec)

lemma half_named_validate:
  "validateJobs test_parse ascii_ToLower (manager half_named_system) =
     ([], Some (ErrOther ''expected exactly 5 fields, found 1: [invalid]''))"
proof -
  have low: "ascii_ToLower ''f1'' = ''f1''" by code_simp
  show ?thesis
    by (simp add: validateJobs_def half_named_system_def AddFunc_def NewManager_def newJob_def
        test_parse_def low ascii_ToLower_def IsActive_def)
qed

lemma half_named_Run:
  "fst (Run test_parse ascii_ToLower test_next Map.empty half_named_system) =
     Returned (Some (Errorf_add [] (ErrOther ''expected exactly 5 fields, found 1: [invalid]'')))"
  "length (cron_Entries (cron (manager (snd (Run test_parse ascii_ToLower test_next Map.empty half_named_system))))) = 1"
proof -
  have low: "ascii_ToLower ''f1'' = ''f1''" by code_simp
  show "fst (Run test_parse ascii_ToLower test_next Map.empty half_named_system) =
     Returned (Some (Errorf_add [] (ErrOther ''expected exactly 5 fields, found 1: [invalid]'')))"
    by (simp add: Run_def Run_body_def validateJobs_def half_named_system_def AddFunc_def
        NewManager_def newJob_def test_parse_def low ascii_ToLower_def IsActive_def updateID_def
        Let_def cron_New_def cron_AddFunc_def upt_rec)
  show "length (cron_Entries (cron (manager (snd (Run test_parse ascii_ToLower test_next Map.empty half_named_system))))) = 1"
    by (simp add: Run_def Run_body_def validateJobs_def half_named_system_def AddFunc_def
        NewManager_def newJob_def test_parse_def low ascii_ToLower_def IsActive_def updateID_def
        Let_def cron_New_def cron_AddFunc_def cron_Entries_def upt_rec)
qed

text \<open>
  A job with an active schedule has, after the registration loop, one entry of the scheduler
  under its identifier; when the scheduler starts, that entry gets the next fire time of the
  schedule, and the snapshot of the job reports it.
\<close>

lemma Run_body_cron_idle:
  assumes b: "Run_body parse ctx idx s = (None, s1)" and ok: "cron_ok s \<and> cron_idle s"
  shows "cron_ok s1 \<and> cron_idle s1"
proof -
  have idx: "idx < length (jobs (manager s))"
    using Run_body_continue(1)[OF b] .
  have cok: "cron_ok s1" using Run_body_cron_ok[OF b] ok by simp
  have "cron_idle s1"
  proof (cases "IsActive (schedule (jobs (manager s) ! idx))")
    case False
    have "cron (manager s1) = cron (manager s)"
      using Run_body_inactive[OF idx False, of parse ctx] b by (metis Pair_inject)
    then show ?thesis using ok by (simp add: cron_idle_def)
  next
    case True
    have c: "cron (manager s1) =
               (cron (manager s))
                 \<lparr>entries := entries (cron (manager s)) @
                    [\<lparr>e_ID = nextID (cron (manager s)) + 1,
                      e_spec = schedule (jobs (manager s) ! idx), e_Next = 0, e_Prev = 0,
                      e_cmd = (CronFnCtx idx (name (jobs (manager s) ! idx))
                                 (isMaintenance (jobs (manager s) ! idx)) (fn (jobs (manager s) ! idx)),
                               ctx)\<rparr>],
                  nextID := nextID (cron (manager s)) + 1\<rparr>"
      using Run_body_active[where parse=parse and ctx=ctx, OF idx True Run_body_continue(2)[OF b True]] b
      by (metis Pair_inject)
    have bound: "\<forall>e \<in> set (entries (cron (manager s))). e_ID e \<le> nextID (cron (manager s))"
      using ok by (simp add: cron_ok_def list_all_iff)
    have new: "nextID (cron (manager s)) + 1 \<notin> e_ID ` set (entries (cron (manager s)))"
    proof
      assume "nextID (cron (manager s)) + 1 \<in> e_ID ` set (entries (cron (manager s)))"
      then obtain e where "e \<in> set (entries (cron (manager s)))"
        and "e_ID e = nextID (cron (manager s)) + 1"
        by auto
      then show False using bound by fastforce
    qed
    show ?thesis
      using ok new by (simp add: cron_idle_def c)
  qed
  then show ?thesis using cok by simp
qed

lemma Run_body_scheduled:
  assumes b: "Run_body parse ctx idx s = (None, s1)"
    and on: "IsActive (schedule (jobs (manager s) ! idx))"
  shows "scheduled idx s1"
proof -
  have idx: "idx < length (jobs (manager s))"
    using Run_body_continue(1)[OF b] .
  obtain s1' where "Run_body parse ctx idx s = (None, s1')"
    and "length (jobs (manager s1')) = length (jobs (manager s))"
    and "cron (manager s1') =
               (cron (manager s))
                 \<lparr>entries := entries (cron (manager s)) @
                    [\<lparr>e_ID = nextID (cron (manager s)) + 1,
                      e_spec = schedule (jobs (manager s) ! idx), e_Next = 0, e_Prev = 0,
                      e_cmd = (CronFnCtx idx (name (jobs (manager s) ! idx))
                                 (isMaintenance (jobs (manager s) ! idx)) (fn (jobs (manager s) ! idx)),
                               ctx)\<rparr>],
                  nextID := nextID (cron (manager s)) + 1\<rparr>"
    and "schedule (jobs (manager s1') ! idx) = schedule (jobs (manager s) ! idx)"
    and "entryID (jobs (manager s1') ! idx) = nextID (cron (manager s)) + 1"
    using Run_body_active[where parse=parse and ctx=ctx, OF idx on Run_body_continue(2)[OF b on]]
    by blast
  then show ?thesis
    using b idx on by (simp add: scheduled_def)
qed

lemma Run_body_keeps_scheduled:
  assumes b: "Run_body parse ctx idx s = (None, s1)" and sch: "scheduled k s"
  shows "scheduled k s1"
proof (cases "k = idx")
  case True
  then show ?thesis using Run_body_scheduled[OF b] sch by (simp add: scheduled_def)
next
  case False
  have idx: "idx < length (jobs (manager s))"
    using Run_body_continue(1)[OF b] .
  have len: "length (jobs (manager s1)) = length (jobs (manager s))"
    using Run_body_same_tasks[OF b] by (simp add: same_tasks_def)
  have job: "jobs (manager s1) ! k = jobs (manager s) ! k"
    using Run_body_others[OF b False] .
  have "set (entries (cron (manager s))) \<subseteq> set (entries (cron (manager s1)))"
  proof (cases "IsActive (schedule (jobs (manager s) ! idx))")
    case False
    have "cron (manager s1) = cron (manager s)"
      using Run_body_inactive[OF idx False, of parse ctx] b by (metis Pair_inject)
    then show ?thesis by simp
  next
    case True
    have "cron (manager s1) =
               (cron (manager s))
                 \<lparr>entries := entries (cron (manager s)) @
                    [\<lparr>e_ID = nextID (cron (manager s)) + 1,
                      e_spec = schedule (jobs (manager s) ! idx), e_Next = 0, e_Prev = 0,
                      e_cmd = (CronFnCtx idx (name (jobs (manager s) ! idx))
                                 (isMaintenance (jobs (manager s) ! idx)) (fn (jobs (manager s) ! idx)),
                               ctx)\<rparr>],
                  nextID := nextID (cron (manager s)) + 1\<rparr>"
      using Run_body_active[where parse=parse and ctx=ctx, OF idx True Run_body_continue(2)[OF b True]] b
      by (metis Pair_inject)
    then show ?thesis by auto
  qed
  then show ?thesis
    using sch len job unfolding scheduled_def list_ex_iff by auto
qed

lemma Run_loop_scheduled:
  assumes "Run_loop parse ctx idxs s = (None, s')" and "k \<in> set idxs"
    and "k < length (jobs (manager s))" and "IsActive (schedule (jobs (manager s) ! k))"
  shows "scheduled k s'"
  using assms
proof (induction idxs arbitrary: s)
  case Nil
  then show ?case by simp
next
  case (Cons idx rest)
  obtain r s1 where b: "Run_body parse ctx idx s = (r, s1)"
    by (cases "Run_body parse ctx idx s")
  have r: "r = None" using Cons.prems(1) b by (cases r) simp_all
  have rest: "Run_loop parse ctx rest s1 = (None, s')"
    using Cons.prems(1) b r by simp
  have same: "same_tasks s s1" using Run_body_same_tasks b r by blast
  have k1: "k < length (jobs (manager s1))"
    and on1: "IsActive (schedule (jobs (manager s1) ! k))"
    using same Cons.prems(3,4) by (simp_all add: same_tasks_def)
  show ?case
  proof (cases "k \<in> set rest")
    case True
    then show ?thesis using Cons.IH[OF rest _ k1 on1] by simp
  next
    case False
    then have "k = idx" using Cons.prems(2) by simp
    then have "scheduled k s1" using Run_body_scheduled[of parse ctx idx s s1] b r Cons.prems(4) by simp
    then show ?thesis
      using Run_loop_invariant[OF rest, of "scheduled k"] Run_body_keeps_scheduled by blast
  qed
qed

lemma Run_loop_cron_idle:
  assumes "Run_loop parse ctx idxs s = (None, s1)" and "cron_ok s" and "cron_idle s"
  shows "cron_idle s1"
  using Run_loop_invariant[OF assms(1), of "\<lambda>s. cron_ok s \<and> cron_idle s"] assms(2,3)
    Run_body_cron_idle by blast

lemma entryIndex_other:
  assumes "k \<notin> e_ID ` set es"
  shows "entryIndex es m k = m k"
  using assms by (induction es arbitrary: m) auto

lemma entryIndex_distinct:
  assumes "distinct (map e_ID es)" and "e \<in> set es"
  shows "entryIndex es m (e_ID e) = Some e"
  using assms
proof (induction es arbitrary: m)
  case Nil
  then show ?case by simp
next
  case (Cons x es)
  show ?case
  proof (cases "e \<in> set es")
    case True
    then show ?thesis using Cons by simp
  next
    case False
    then have "e = x" using Cons.prems(2) by simp
    moreover have "e_ID x \<notin> e_ID ` set es" using Cons.prems(1) by simp
    ultimately show ?thesis using entryIndex_other[of "e_ID x" es "m(e_ID x \<mapsto> x)"] by simp
  qed
qed

lemma cron_New_idle:
  assumes "cron (manager s) = cron_New"
  shows "cron_idle s"
  using assms by (simp add: cron_idle_def cron_New_def)

lemma Run_active_next_run:
  assumes fresh: "cron (manager s) = cron_New"
    and valid: "validateJobs parse toLower (manager s) = ([], None)"
    and idx: "idx < length (jobs (manager s))"
    and on: "IsActive (schedule (jobs (manager s) ! idx))"
  shows "\<exists>s'. Run parse toLower nextFire ctx s = (Returned None, s')
           \<and> LastRun (State (manager s') ! idx) = 0
           \<and> NextRun (State (manager s') ! idx) =
               nextFire (schedule (jobs (manager s) ! idx))
                 (readings (clock s') (taken (clock s') - 1))"
proof -
  have parses: "schedules_parse parse (jobs (manager s))"
    using validateJobs_ok[OF valid] by simp
  obtain s1 where loop: "Run_loop parse ctx [0..<length (jobs (manager s))] s = (None, s1)"
    using Run_loop_upt_total[OF parses] by blast
  define now where "now = readings (clock s1) (taken (clock s1))"
  define f :: "'a Entry \<Rightarrow> 'a Entry" where "f = (\<lambda>e. e\<lparr>e_Next := nextFire (e_spec e) now\<rparr>)"
  define s' where
    "s' = s1\<lparr>manager := (manager s1)\<lparr>cron := fst (cron_Start nextFire (clock s1) (cron (manager s1)))\<rparr>,
             clock := snd (cron_Start nextFire (clock s1) (cron (manager s1)))\<rparr>"
  have run: "Run parse toLower nextFire ctx s = (Returned None, s')"
    using Run_success[OF valid loop, where nextFire=nextFire] by (simp add: s'_def)
  have same: "same_tasks s s1" using Run_loop_same_tasks[OF loop] .
  have idle: "cron_idle s1"
    using Run_loop_cron_idle[OF loop cron_New_ok[OF fresh] cron_New_idle[OF fresh]] .
  have sch: "scheduled idx s1"
    using Run_loop_scheduled[OF loop _ idx on] idx by simp
  have jobs': "jobs (manager s') = jobs (manager s1)"
    by (simp add: s'_def)
  have entries': "entries (cron (manager s')) = map f (entries (cron (manager s1)))"
    and clock': "readings (clock s') (taken (clock s') - 1) = now"
    using idle
    by (simp_all add: s'_def cron_Start_def cron_idle_def time_Now_def f_def now_def)
  have len: "length (jobs (manager s1)) = length (jobs (manager s))"
    and sched: "schedule (jobs (manager s1) ! idx) = schedule (jobs (manager s) ! idx)"
    using same idx by (simp_all add: same_tasks_def)
  obtain e where e: "e \<in> set (entries (cron (manager s1)))"
    and eid: "e_ID e = entryID (jobs (manager s1) ! idx)"
    and espec: "e_spec e = schedule (jobs (manager s1) ! idx)"
    and eprev: "e_Prev e = 0"
    using sch unfolding scheduled_def list_ex_iff by blast
  have ids: "map e_ID (map f (entries (cron (manager s1)))) = map e_ID (entries (cron (manager s1)))"
    by (simp add: f_def)
  have "entryIndex (map f (entries (cron (manager s1)))) Map.empty (e_ID (f e)) = Some (f e)"
  proof (rule entryIndex_distinct)
    show "distinct (map e_ID (map f (entries (cron (manager s1)))))"
      unfolding ids using idle by (simp add: cron_idle_def)
    show "f e \<in> set (map f (entries (cron (manager s1))))" using e by simp
  qed
  then have look: "entryIndex (cron_Entries (cron (manager s'))) Map.empty
                     (entryID (jobs (manager s1) ! idx)) = Some (f e)"
    using entries' eid by (simp add: cron_Entries_def f_def)
  have snap: "State (manager s') ! idx =
                jobSnapshot (entryIndex (cron_Entries (cron (manager s'))) Map.empty)
                  (jobs (manager s1) ! idx)"
    using State_nth[of idx "manager s'"] idx len jobs' by simp
  have "LastRun (State (manager s') ! idx) = 0"
    and "NextRun (State (manager s') ! idx) = nextFire (schedule (jobs (manager s) ! idx)) now"
    using snap look eprev espec sched by (simp_all add: jobSnapshot_def Let_def f_def)
  then show ?thesis using run clock' by auto
qed
section \<open>Activation, manual runs and the scheduler\<close>

text \<open>
  C6. \<^verbatim>\<open>Run\<close> decides whether validation failed by the name that \<^verbatim>\<open>validateJobs\<close>
  returns, not by its error. When the job that fails validation has the empty name, the test
  \<^verbatim>\<open>name != ""\<close> lets the failure through. Two manual-only tasks with the empty name are
  a duplicate for \<^verbatim>\<open>validateJobs\<close>, and \<^verbatim>\<open>Run\<close> returns nil and starts the
  scheduler. A task with the empty name and a schedule that does not parse, registered after
  a valid task, makes \<^verbatim>\<open>Run\<close> fail only in \<^verbatim>\<open>AddFunc\<close>, with the valid task already
  registered with the scheduler. (For a job with a name that is not empty,
  \<open>Run_validation_error\<close> shows that \<^verbatim>\<open>Run\<close> returns the error and changes nothing.)
  The names of the two examples are \<^verbatim>\<open>f1\<close> and the empty name, which
  \<^verbatim>\<open>strings.ToLower\<close> leaves as they are.
\<close>

theorem Run_unnamed_tasks:
  "validateJobs test_parse ascii_ToLower (manager unnamed_system) = ([], Some ErrDuplicate)
   \<and> fst (Run test_parse ascii_ToLower test_next Map.empty unnamed_system) = Returned None
   \<and> running (cron (manager (snd (Run test_parse ascii_ToLower test_next Map.empty unnamed_system))))
   \<and> validateJobs test_parse ascii_ToLower (manager half_named_system) =
       ([], Some (ErrOther ''expected exactly 5 fields, found 1: [invalid]''))
   \<and> length (cron_Entries (cron (manager (snd (Run test_parse ascii_ToLower test_next Map.empty half_named_system))))) = 1"
  using unnamed_validate unnamed_Run half_named_validate half_named_Run by simp

text \<open>
  C9, as amended. Let the manager be fresh from registration and its job list pass validation,
  and let the job at \<open>idx\<close> have an empty or \<^verbatim>\<open>disabled\<close> schedule. Then \<^verbatim>\<open>Run\<close>
  returns nil with the scheduler started, and for that job: no entry of the scheduler carries
  its closure; its phase is \<open>disabled\<close>; its identifier is \<open>- idx\<close>, which is \<open>0\<close> for
  the job registered first and negative for the others, below the identifier of every entry
  (the scheduler's counter is not negative, so the identifiers it issues are positive); the
  manual trigger runs the job's closure when it is called with a name that matches the job's
  name under \<^verbatim>\<open>strings.EqualFold\<close> and the name of no job registered before it
  (\<^verbatim>\<open>ManualRun\<close> runs the first match, and validation compares names by
  \<^verbatim>\<open>strings.ToLower\<close>, which is another comparison); and its snapshot reports the phase
  \<open>disabled\<close> and zero previous and next run times. The statement holds whatever the four
  library functions compute. The snapshot of a job with an active schedule reports the next
  fire time that the scheduler computed when it started (lemma \<open>Run_active_next_run\<close>).
\<close>

theorem Run_inactive_schedule:
  assumes fresh: "cron (manager s) = cron_New"
    and valid: "validateJobs parse toLower (manager s) = ([], None)"
    and idx: "idx < length (jobs (manager s))"
    and off: "\<not> IsActive (schedule (jobs (manager s) ! idx))"
  shows "\<exists>s'. Run parse toLower nextFire ctx s = (Returned None, s')
           \<and> running (cron (manager s'))
           \<and> 0 \<le> nextID (cron (manager s'))
           \<and> list_all (\<lambda>e. closure_idx (fst (e_cmd e)) \<noteq> idx
                            \<and> entryID (jobs (manager s') ! idx) < e_ID e)
                 (cron_Entries (cron (manager s')))
           \<and> state (lastState (jobs (manager s') ! idx)) = stateDisabled
           \<and> entryID (jobs (manager s') ! idx) = - int idx
           \<and> cronFn (jobs (manager s') ! idx) =
               Some (CronFnCtx idx (name (jobs (manager s) ! idx))
                       (isMaintenance (jobs (manager s) ! idx)) (fn (jobs (manager s) ! idx)))
           \<and> (\<forall>equalFold ctx' ident.
                 equalFold (name (jobs (manager s) ! idx)) ident
                 \<and> (\<forall>k < idx. \<not> equalFold (name (jobs (manager s) ! k)) ident) \<longrightarrow>
                 ManualRun equalFold ctx' ident s' =
                   cronFnCtx (CronFnCtx idx (name (jobs (manager s) ! idx))
                       (isMaintenance (jobs (manager s) ! idx)) (fn (jobs (manager s) ! idx))) ctx' s')
           \<and> LastState (State (manager s') ! idx) = ''disabled''
           \<and> LastRun (State (manager s') ! idx) = 0
           \<and> NextRun (State (manager s') ! idx) = 0"
proof -
  let ?j = "jobs (manager s) ! idx"
  let ?c = "CronFnCtx idx (name ?j) (isMaintenance ?j) (fn ?j)"
  have parses: "schedules_parse parse (jobs (manager s))"
    using validateJobs_ok[OF valid] by simp
  obtain s1 where loop: "Run_loop parse ctx [0..<length (jobs (manager s))] s = (None, s1)"
    using Run_loop_upt_total[OF parses] by blast
  define s' where
    "s' = s1\<lparr>manager := (manager s1)\<lparr>cron := fst (cron_Start nextFire (clock s1) (cron (manager s1)))\<rparr>,
             clock := snd (cron_Start nextFire (clock s1) (cron (manager s1)))\<rparr>"
  have run: "Run parse toLower nextFire ctx s = (Returned None, s')"
    using Run_success[OF valid loop, where nextFire=nextFire] by (simp add: s'_def)
  have same: "same_tasks s s1" using Run_loop_same_tasks[OF loop] .
  have act: "activated idx s1" using Run_loop_activated[OF loop] idx by simp
  have cok: "cron_ok s1" using Run_loop_cron_ok[OF loop cron_New_ok[OF fresh]] .
  have jobs': "jobs (manager s') = jobs (manager s1)"
    and cron': "cron (manager s') = fst (cron_Start nextFire (clock s1) (cron (manager s1)))"
    by (simp_all add: s'_def)
  have next': "nextID (cron (manager s')) = nextID (cron (manager s1))"
    and running': "running (cron (manager s'))"
    using cron' by (simp_all add: cron_Start_nextID cron_Start_running)
  have len: "length (jobs (manager s1)) = length (jobs (manager s))"
    and nms: "\<And>i. i < length (jobs (manager s)) \<Longrightarrow>
                name (jobs (manager s1) ! i) = name (jobs (manager s) ! i)"
    and sch: "\<And>i. i < length (jobs (manager s)) \<Longrightarrow>
                schedule (jobs (manager s1) ! i) = schedule (jobs (manager s) ! i)"
    and mt: "isMaintenance (jobs (manager s1) ! idx) = isMaintenance ?j"
    and fnn: "fn (jobs (manager s1) ! idx) = fn ?j"
    using same idx by (simp_all add: same_tasks_def)
  have nm: "name (jobs (manager s1) ! idx) = name ?j" using nms[OF idx] .
  have off1: "\<not> IsActive (schedule (jobs (manager s1) ! idx))"
    using off sch[OF idx] by simp
  have st: "state (lastState (jobs (manager s1) ! idx)) = stateDisabled"
    and eid: "entryID (jobs (manager s1) ! idx) = - int idx"
    and cf: "cronFn (jobs (manager s1) ! idx) = Some ?c"
    using act off1 nm mt fnn by (simp_all add: activated_def Let_def)
  have ents1: "closure_idx (fst (e_cmd e)) \<noteq> idx \<and> entryID (jobs (manager s1) ! idx) < e_ID e"
    if "e \<in> set (entries (cron (manager s1)))" for e
  proof -
    have "0 < e_ID e" and "IsActive (schedule (jobs (manager s1) ! closure_idx (fst (e_cmd e))))"
      using cok that by (simp_all add: cron_ok_def list_all_iff)
    then show ?thesis using off1 eid by auto
  qed
  have ents: "closure_idx (fst (e_cmd e')) \<noteq> idx \<and> entryID (jobs (manager s1) ! idx) < e_ID e'"
    if "e' \<in> set (entries (cron (manager s')))" for e'
  proof -
    have "e' \<in> set (entries (fst (cron_Start nextFire (clock s1) (cron (manager s1)))))"
      using that cron' by simp
    then obtain e where "e \<in> set (entries (cron (manager s1)))" and "e_ID e' = e_ID e"
      and "e_cmd e' = e_cmd e"
      by (rule cron_Start_entries)
    then show ?thesis using ents1[of e] by simp
  qed
  have noent: "entryIndex (cron_Entries (cron (manager s'))) Map.empty (entryID (jobs (manager s1) ! idx)) = None"
  proof (rule entryIndex_None)
    show "\<forall>e\<in>set (cron_Entries (cron (manager s'))). e_ID e \<noteq> entryID (jobs (manager s1) ! idx)"
      using ents by (fastforce simp: cron_Entries_def)
  qed simp
  have snap: "State (manager s') ! idx =
                jobSnapshot (entryIndex (cron_Entries (cron (manager s'))) Map.empty)
                  (jobs (manager s1) ! idx)"
    using State_nth[of idx "manager s'"] idx len jobs' by simp
  have manual: "ManualRun equalFold ctx' ident s' = cronFnCtx ?c ctx' s'"
    if eq: "equalFold (name ?j) ident"
      and first: "\<forall>k < idx. \<not> equalFold (name (jobs (manager s) ! k)) ident"
    for equalFold ctx' ident
  proof -
    have i1: "idx < length (jobs (manager s1))" using idx len by simp
    have e1: "equalFold (name (jobs (manager s1) ! idx)) ident" using eq nm by simp
    have f1: "\<forall>k < idx. \<not> equalFold (name (jobs (manager s1) ! k)) ident"
      using first nms idx by simp
    show ?thesis
      using ManualRun_loop_first[where equalFold=equalFold and ident=ident and ctx=ctx' and s=s', OF i1 e1 f1] cf
      by (simp add: ManualRun_def jobs')
  qed
  have "0 \<le> nextID (cron (manager s'))"
    using cok next' by (simp add: cron_ok_def)
  moreover have "list_all (\<lambda>e. closure_idx (fst (e_cmd e)) \<noteq> idx
                            \<and> entryID (jobs (manager s') ! idx) < e_ID e)
                 (cron_Entries (cron (manager s')))"
    using ents jobs' by (simp add: list_all_iff cron_Entries_def)
  moreover have "LastState (State (manager s') ! idx) = ''disabled''"
    and "LastRun (State (manager s') ! idx) = 0" and "NextRun (State (manager s') ! idx) = 0"
    using jobSnapshot_no_entry[of "entryIndex (cron_Entries (cron (manager s'))) Map.empty"
            "jobs (manager s1) ! idx", OF noent] snap st
    by simp_all
  moreover have "\<forall>equalFold ctx' ident.
                 equalFold (name ?j) ident
                 \<and> (\<forall>k < idx. \<not> equalFold (name (jobs (manager s) ! k)) ident) \<longrightarrow>
                 ManualRun equalFold ctx' ident s' = cronFnCtx ?c ctx' s'"
    using manual by blast
  ultimately show ?thesis
    using run running' st eid cf jobs' by auto
qed

text \<open>
  The task \<^verbatim>\<open>f1\<close> on \<^verbatim>\<open>0 0 * * *\<close>, followed by the task \<^verbatim>\<open>f5\<close> of the
  repository's example with the empty schedule: after \<^verbatim>\<open>Run\<close> the task \<^verbatim>\<open>f5\<close> has the
  identifier \<open>-1\<close>, its snapshot is disabled with zero run times, the manual trigger under
  the name \<^verbatim>\<open>F5\<close>, which does not match \<^verbatim>\<open>f1\<close>, runs it, and the snapshot of
  \<^verbatim>\<open>f1\<close> reports the next fire time that the scheduler computed.
\<close>

theorem Run_inactive_schedule_witness:
  "cron (manager manual_second_system) = cron_New
   \<and> validateJobs test_parse ascii_ToLower (manager manual_second_system) = ([], None)
   \<and> 1 < length (jobs (manager manual_second_system))
   \<and> \<not> IsActive (schedule (jobs (manager manual_second_system) ! 1))
   \<and> ascii_EqualFold (name (jobs (manager manual_second_system) ! 1)) ''F5''
   \<and> \<not> ascii_EqualFold (name (jobs (manager manual_second_system) ! 0)) ''F5''
   \<and> (\<exists>s'. Run test_parse ascii_ToLower test_next Map.empty manual_second_system = (Returned None, s')
          \<and> running (cron (manager s'))
          \<and> state (lastState (jobs (manager s') ! 1)) = stateDisabled
          \<and> entryID (jobs (manager s') ! 1) = - 1
          \<and> ManualRun ascii_EqualFold Map.empty ''F5'' s' =
               cronFnCtx (CronFnCtx 1 ''f5'' False newCronFunc) Map.empty s'
          \<and> LastState (State (manager s') ! 1) = ''disabled''
          \<and> LastRun (State (manager s') ! 1) = 0
          \<and> NextRun (State (manager s') ! 1) = 0)
   \<and> NextRun (State (manager (snd (Run test_parse ascii_ToLower test_next Map.empty
                                       manual_second_system))) ! 0) = 65"
proof -
  have low: "ascii_ToLower ''f5'' = ''f5''" "ascii_ToLower ''f1'' = ''f1''"
    by code_simp+
  have h1: "cron (manager manual_second_system) = cron_New"
    by (simp add: manual_second_system_def AddFunc_def NewManager_def)
  have h2: "validateJobs test_parse ascii_ToLower (manager manual_second_system) = ([], None)"
    by (simp add: validateJobs_def manual_second_system_def AddFunc_def NewManager_def newJob_def
          test_parse_def low IsActive_def)
  have h3: "1 < length (jobs (manager manual_second_system))"
    by (simp add: manual_second_system_def AddFunc_def NewManager_def)
  have h4: "\<not> IsActive (schedule (jobs (manager manual_second_system) ! 1))"
    by (simp add: manual_second_system_def AddFunc_def NewManager_def newJob_def IsActive_def)
  have j0: "jobs (manager manual_second_system) ! 0 = newJob ''f1'' ''0 0 * * *'' newCronFunc False"
    and j1: "jobs (manager manual_second_system) ! 1 = newJob ''f5'' [] newCronFunc False"
    by (simp_all add: manual_second_system_def AddFunc_def NewManager_def)
  have h5: "ascii_EqualFold (name (jobs (manager manual_second_system) ! 1)) ''F5''"
    using j1 by (simp add: newJob_def ascii_fold_eq_def)
  have h6: "\<not> ascii_EqualFold (name (jobs (manager manual_second_system) ! 0)) ''F5''"
    by (simp add: j0 newJob_def ascii_fold_eq_def)
  have h7: "NextRun (State (manager (snd (Run test_parse ascii_ToLower test_next Map.empty
                                       manual_second_system))) ! 0) = 65"
    using manual_second_next .
  obtain s' where r: "Run test_parse ascii_ToLower test_next Map.empty manual_second_system = (Returned None, s')"
    and p: "running (cron (manager s'))"
      "state (lastState (jobs (manager s') ! 1)) = stateDisabled"
      "entryID (jobs (manager s') ! 1) = - int 1"
      "\<forall>equalFold ctx' ident.
         equalFold (name (jobs (manager manual_second_system) ! 1)) ident
         \<and> (\<forall>k < 1. \<not> equalFold (name (jobs (manager manual_second_system) ! k)) ident) \<longrightarrow>
         ManualRun equalFold ctx' ident s' =
           cronFnCtx (CronFnCtx 1 (name (jobs (manager manual_second_system) ! 1))
              (isMaintenance (jobs (manager manual_second_system) ! 1))
              (fn (jobs (manager manual_second_system) ! 1))) ctx' s'"
      "LastState (State (manager s') ! 1) = ''disabled''"
      "LastRun (State (manager s') ! 1) = 0"
      "NextRun (State (manager s') ! 1) = 0"
    using Run_inactive_schedule[OF h1 h2 h3 h4, of test_next Map.empty] by blast
  have first: "\<forall>k < 1. \<not> ascii_EqualFold (name (jobs (manager manual_second_system) ! k)) ''F5''"
    using h6 by simp
  have c: "CronFnCtx 1 (name (jobs (manager manual_second_system) ! 1))
              (isMaintenance (jobs (manager manual_second_system) ! 1))
              (fn (jobs (manager manual_second_system) ! 1)) =
           CronFnCtx 1 ''f5'' False newCronFunc"
    using j1 by (simp add: newJob_def)
  have "ManualRun ascii_EqualFold Map.empty ''F5'' s' =
           cronFnCtx (CronFnCtx 1 (name (jobs (manager manual_second_system) ! 1))
              (isMaintenance (jobs (manager manual_second_system) ! 1))
              (fn (jobs (manager manual_second_system) ! 1))) Map.empty s'"
    using p(4) h5 first by blast
  then have m: "ManualRun ascii_EqualFold Map.empty ''F5'' s' =
             cronFnCtx (CronFnCtx 1 ''f5'' False newCronFunc) Map.empty s'"
    unfolding c .
  show ?thesis
    using h1 h2 h3 h4 h5 h6 h7 r p(1,2,3,5,6,7) m by simp
qed

text \<open>
  C9 as stated fails for a manual-only task registered first: its identifier is \<open>0\<close>, which
  is not negative.
\<close>

theorem Run_inactive_schedule_counterexample:
  "\<not> IsActive (schedule (jobs (manager manual_first_system) ! 0))
   \<and> fst (Run test_parse ascii_ToLower test_next Map.empty manual_first_system) = Returned None
   \<and> \<not> entryID (jobs (manager (snd (Run test_parse ascii_ToLower test_next Map.empty manual_first_system))) ! 0) < 0"
  using manual_first_Run
  by (simp add: manual_first_system_def AddFunc_def NewManager_def newJob_def IsActive_def)

text \<open>
  C10, as amended. On a manager on which \<^verbatim>\<open>Run\<close> has not been called, \<^verbatim>\<open>ManualRun\<close>
  with a name that matches a registered job under \<^verbatim>\<open>strings.EqualFold\<close> calls the nil
  \<^verbatim>\<open>cronFn\<close> of the first such job: it panics with a nil dereference and returns no error,
  and nothing has changed. When validation fails at a job whose name is not empty, \<^verbatim>\<open>Run\<close>
  returns the validation error and leaves the manager as it was, so the same holds after it.
  After a \<^verbatim>\<open>Run\<close> that returns nil every job holds its closure, and \<^verbatim>\<open>ManualRun\<close>
  runs the closure of the first job, in registration order, whose name matches. The statement
  holds whatever the four library functions compute. (When validation fails at a job with the
  empty name, \<^verbatim>\<open>Run\<close> goes past its test; what it does then is the subject of C6.)
\<close>

theorem ManualRun_before_Run:
  assumes "configured (manager s)" and "j \<in> set (jobs (manager s))" and "equalFold (name j) ident"
  shows "ManualRun equalFold ctx ident s =
           (Panicked ''invalid memory address or nil pointer dereference'', s)
         \<and> (\<forall>parse toLower nextFire ctx' n e.
               validateJobs parse toLower (manager s) = (n, e) \<and> n \<noteq> [] \<longrightarrow>
               Run parse toLower nextFire ctx' s = (Returned (Some (Errorf_validate e n)), s))
         \<and> (\<forall>parse toLower nextFire ctx' s'.
               Run parse toLower nextFire ctx' s = (Returned None, s') \<longrightarrow>
               list_all (\<lambda>j'. cronFn j' \<noteq> None) (jobs (manager s'))
               \<and> (\<forall>i ident' ctx''.
                     i < length (jobs (manager s')) \<and> equalFold (name (jobs (manager s') ! i)) ident'
                     \<and> (\<forall>k < i. \<not> equalFold (name (jobs (manager s') ! k)) ident') \<longrightarrow>
                     ManualRun equalFold ctx'' ident' s' =
                       cronFnCtx (CronFnCtx i (name (jobs (manager s') ! i))
                                    (isMaintenance (jobs (manager s') ! i)) (fn (jobs (manager s') ! i)))
                         ctx'' s'))"
proof -
  have nil: "list_all (\<lambda>j. cronFn j = None) (jobs (manager s))"
    using configured_fresh[OF assms(1)] by (simp add: list_all_iff)
  have a: "ManualRun equalFold ctx ident s =
             (Panicked ''invalid memory address or nil pointer dereference'', s)"
    using ManualRun_loop_nil[where equalFold=equalFold and ident=ident, OF nil assms(2) assms(3)]
    by (simp add: ManualRun_def)
  have b: "Run parse toLower nextFire ctx' s = (Returned (Some (Errorf_validate e n)), s)"
    if "validateJobs parse toLower (manager s) = (n, e)" and "n \<noteq> []"
    for parse toLower nextFire ctx' n e
    using Run_validation_error[OF that] .
  have c: "list_all (\<lambda>j'. cronFn j' \<noteq> None) (jobs (manager s'))"
    if "Run parse toLower nextFire ctx' s = (Returned None, s')" for parse toLower nextFire ctx' s'
    using Run_all_activated[OF that]
    by (auto simp: list_all_length activated_def Let_def)
  have d: "ManualRun equalFold ctx'' ident' s' =
             cronFnCtx (CronFnCtx i (name (jobs (manager s') ! i))
                          (isMaintenance (jobs (manager s') ! i)) (fn (jobs (manager s') ! i)))
               ctx'' s'"
    if run: "Run parse toLower nextFire ctx' s = (Returned None, s')"
      and i: "i < length (jobs (manager s'))"
      and eq: "equalFold (name (jobs (manager s') ! i)) ident'"
      and first: "\<forall>k < i. \<not> equalFold (name (jobs (manager s') ! k)) ident'"
    for parse toLower nextFire ctx' s' i ident' ctx''
  proof -
    have "activated i s'" using Run_all_activated[OF run] i by simp
    then have "cronFn (jobs (manager s') ! i) =
                 Some (CronFnCtx i (name (jobs (manager s') ! i))
                         (isMaintenance (jobs (manager s') ! i)) (fn (jobs (manager s') ! i)))"
      by (simp add: activated_def Let_def)
    then show ?thesis
      using ManualRun_loop_first[where equalFold=equalFold and ident=ident' and ctx=ctx'' and s=s',
              OF i eq first]
      by (simp add: ManualRun_def)
  qed
  show ?thesis using a b c d by blast
qed

theorem ManualRun_before_Run_witness:
  "configured (manager test_system)
   \<and> newJob ''f1'' ''0 0 * * *'' newCronFunc False \<in> set (jobs (manager test_system))
   \<and> ascii_EqualFold (name (newJob ''f1'' ''0 0 * * *'' (newCronFunc :: coord Func) False)) ''F1''
   \<and> ManualRun ascii_EqualFold Map.empty ''F1'' test_system =
        (Panicked ''invalid memory address or nil pointer dereference'', test_system)"
proof -
  have h1: "configured (manager test_system)"
    unfolding test_system_def test_manager_def
    by (simp add: configured_New configured_AddFunc)
  have h2: "newJob ''f1'' ''0 0 * * *'' newCronFunc False \<in> set (jobs (manager test_system))"
    by (simp add: test_system_def test_manager_def AddFunc_def NewManager_def)
  have h3: "ascii_EqualFold (name (newJob ''f1'' ''0 0 * * *'' (newCronFunc :: coord Func) False)) ''F1''"
    by (simp add: newJob_def ascii_fold_eq_def)
  show ?thesis
    using h1 h2 h3
      ManualRun_before_Run[where equalFold=ascii_EqualFold and ident="''F1''" and ctx=Map.empty,
        OF h1 h2 h3]
    by simp
qed

text \<open>
  C10 as stated fails where it speaks of a \<^verbatim>\<open>Run\<close> that returned a validation error. The
  job list of this manager, fresh from registration, fails validation at its second job, whose
  name is empty; \<^verbatim>\<open>Run\<close> goes past its test, gives the first job \<^verbatim>\<open>f1\<close> its closure and
  returns the error of the schedule only from the registration of the second job. After this
  \<^verbatim>\<open>Run\<close>, \<^verbatim>\<open>ManualRun\<close> with the name \<^verbatim>\<open>f1\<close> does not call a nil function: it runs
  the closure and returns nil.
\<close>

theorem ManualRun_before_Run_counterexample:
  "configured (manager half_named_system)
   \<and> validateJobs test_parse ascii_ToLower (manager half_named_system) =
       ([], Some (ErrOther ''expected exactly 5 fields, found 1: [invalid]''))
   \<and> fst (Run test_parse ascii_ToLower test_next Map.empty half_named_system) =
       Returned (Some (Errorf_add [] (ErrOther ''expected exactly 5 fields, found 1: [invalid]'')))
   \<and> ascii_EqualFold (name (jobs (manager half_named_system) ! 0)) ''f1''
   \<and> cronFn (jobs (manager (snd (Run test_parse ascii_ToLower test_next Map.empty
                                     half_named_system))) ! 0) =
       Some (CronFnCtx 0 ''f1'' False newCronFunc)
   \<and> fst (ManualRun ascii_EqualFold Map.empty ''f1''
            (snd (Run test_parse ascii_ToLower test_next Map.empty half_named_system))) =
       Returned None"
proof -
  have low: "ascii_ToLower ''f1'' = ''f1''" by code_simp
  have c: "configured (manager half_named_system)"
    unfolding half_named_system_def by (simp add: configured_New configured_AddFunc)
  have e: "ascii_EqualFold (name (jobs (manager half_named_system) ! 0)) ''f1''"
    by (simp add: half_named_system_def AddFunc_def NewManager_def newJob_def ascii_fold_eq_def)
  have f: "cronFn (jobs (manager (snd (Run test_parse ascii_ToLower test_next Map.empty
                                     half_named_system))) ! 0) =
             Some (CronFnCtx 0 ''f1'' False newCronFunc)"
    by (simp add: Run_def Run_body_def validateJobs_def half_named_system_def AddFunc_def
        NewManager_def newJob_def test_parse_def low ascii_ToLower_def IsActive_def updateID_def
        Let_def cron_New_def cron_AddFunc_def upt_rec)
  have m: "fst (ManualRun ascii_EqualFold Map.empty ''f1''
            (snd (Run test_parse ascii_ToLower test_next Map.empty half_named_system))) =
             Returned None"
    by (simp add: ManualRun_def Run_def Run_body_def validateJobs_def half_named_system_def
        AddFunc_def NewManager_def newJob_def test_parse_def low ascii_ToLower_def IsActive_def
        updateID_def Let_def cron_New_def cron_AddFunc_def upt_rec ascii_fold_eq_def
        updateState_def newCronFunc_def time_Now_def time_Since_def test_clock_def errors_Is_def
        test_world_def)
  show ?thesis
    using c half_named_validate half_named_Run(1) e f m by simp
qed
section \<open>Properties of the middleware chain\<close>







section \<open>Properties of the duplicate-run guard\<close>

lemma step_SomeE:
  assumes "step k (s, ts) = Some (s', ts')"
  obtains t' where "k < length ts" and "invocation_step (i_pc (ts ! k)) (ts ! k) s = Some (s', t')"
    and "ts' = ts[k := t']"
  using assms by (auto simp: step_def split: if_splits option.splits)

lemma invocation_step_fields:
  assumes "invocation_step p t s = Some (s', t')"
  shows "i_name t' = i_name t" and "i_idx t' = i_idx t" and "i_result t' = i_result t"
    and "length (jobs (manager s')) = length (jobs (manager s))"
  using assms
  by (cases p; auto split: option.splits if_splits dest: updateState_length)+

lemma guard_inv_initial:
  assumes "initial st"
  shows "guard_inv st"
  using assms
  by (cases st) (auto simp: initial_def guard_inv_def list_all_length)

lemma guard_invI:
  assumes "\<And>i. i < length ts \<Longrightarrow> guarded (i_pc (ts ! i)) \<Longrightarrow> i_name (ts ! i) \<in> active (world s)"
    and "\<And>n. n \<in> active (world s) \<Longrightarrow> \<exists>i < length ts. guarded (i_pc (ts ! i)) \<and> i_name (ts ! i) = n"
    and "\<And>i j. i < length ts \<Longrightarrow> j < length ts \<Longrightarrow> guarded (i_pc (ts ! i)) \<Longrightarrow>
               guarded (i_pc (ts ! j)) \<Longrightarrow> i_name (ts ! i) = i_name (ts ! j) \<Longrightarrow> i = j"
    and "\<And>i. i < length ts \<Longrightarrow> i_pc (ts ! i) \<noteq> AtUpdateRunning \<Longrightarrow>
               i_idx (ts ! i) < length (jobs (manager s))"
  shows "guard_inv (s, ts)"
  unfolding guard_inv_def using assms by simp

lemma guard_inv_same:
  assumes inv: "guard_inv (s, ts)" and len: "length ts' = length ts"
    and g: "\<And>i. i < length ts \<Longrightarrow> guarded (i_pc (ts' ! i)) = guarded (i_pc (ts ! i))"
    and n: "\<And>i. i < length ts \<Longrightarrow> i_name (ts' ! i) = i_name (ts ! i)"
    and a: "active (world s') = active (world s)"
    and x: "\<And>i. i < length ts \<Longrightarrow> i_pc (ts' ! i) \<noteq> AtUpdateRunning \<Longrightarrow>
               i_idx (ts' ! i) < length (jobs (manager s'))"
  shows "guard_inv (s', ts')"
proof (rule guard_invI)
  fix i assume "i < length ts'" "guarded (i_pc (ts' ! i))"
  then show "i_name (ts' ! i) \<in> active (world s')"
    using inv len g n a by (simp add: guard_inv_def)
next
  fix m assume "m \<in> active (world s')"
  then obtain i where "i < length ts" "guarded (i_pc (ts ! i))" "i_name (ts ! i) = m"
    using inv a by (auto simp: guard_inv_def)
  then show "\<exists>i<length ts'. guarded (i_pc (ts' ! i)) \<and> i_name (ts' ! i) = m"
    using len g n by auto
next
  fix i j assume "i < length ts'" "j < length ts'" "guarded (i_pc (ts' ! i))"
    "guarded (i_pc (ts' ! j))" "i_name (ts' ! i) = i_name (ts' ! j)"
  then show "i = j"
    using inv len g n by (simp add: guard_inv_def)
next
  fix i assume "i < length ts'" "i_pc (ts' ! i) \<noteq> AtUpdateRunning"
  then show "i_idx (ts' ! i) < length (jobs (manager s'))"
    using x len by simp
qed

lemma guard_inv_step:
  assumes inv: "guard_inv (s, ts)" and st: "step k (s, ts) = Some (s', ts')"
  shows "guard_inv (s', ts')"
proof -
  obtain t' where k: "k < length ts"
    and stp: "invocation_step (i_pc (ts ! k)) (ts ! k) s = Some (s', t')"
    and ts': "ts' = ts[k := t']"
    using st by (rule step_SomeE)
  have I1: "\<And>i. i < length ts \<Longrightarrow> guarded (i_pc (ts ! i)) \<Longrightarrow> i_name (ts ! i) \<in> active (world s)"
    and I2: "\<And>n. n \<in> active (world s) \<Longrightarrow> \<exists>i < length ts. guarded (i_pc (ts ! i)) \<and> i_name (ts ! i) = n"
    and I3: "\<And>i j. i < length ts \<Longrightarrow> j < length ts \<Longrightarrow> guarded (i_pc (ts ! i)) \<Longrightarrow>
               guarded (i_pc (ts ! j)) \<Longrightarrow> i_name (ts ! i) = i_name (ts ! j) \<Longrightarrow> i = j"
    and I4: "\<And>i. i < length ts \<Longrightarrow> i_pc (ts ! i) \<noteq> AtUpdateRunning \<Longrightarrow>
               i_idx (ts ! i) < length (jobs (manager s))"
    using inv by (auto simp: guard_inv_def)
  have nm: "i_name t' = i_name (ts ! k)" and ix: "i_idx t' = i_idx (ts ! k)"
    and len: "length (jobs (manager s')) = length (jobs (manager s))"
    using invocation_step_fields[OF stp] by simp_all
  have lts: "length ts' = length ts" by (simp add: ts')
  have n: "i_name (ts' ! i) = i_name (ts ! i)" if "i < length ts" for i
    using that nm by (cases "i = k") (simp_all add: ts')
  have other: "ts' ! i = ts ! i" if "i \<noteq> k" for i
    using that by (simp add: ts')
  have self: "ts' ! k = t'"
    using k by (simp add: ts')
  have x: "i_idx (ts' ! i) < length (jobs (manager s'))"
    if pc': "i_pc (ts ! k) = AtUpdateRunning \<Longrightarrow> i_idx (ts ! k) < length (jobs (manager s))"
      and "i < length ts" "i_pc (ts' ! i) \<noteq> AtUpdateRunning" for i
  proof (cases "i = k")
    case True
    have "i_idx (ts ! k) < length (jobs (manager s))"
      using pc' I4[OF k] by blast
    then show ?thesis using True self ix len by simp
  next
    case False
    then show ?thesis using that(2,3) other[OF False] I4[of i] len by simp
  qed
  show ?thesis
  proof (cases "i_pc (ts ! k)")
    case AtUpdateRunning
    obtain s1 where u: "updateState (i_idx (ts ! k)) stateRunning None s = Some s1"
      and e: "s' = s1" "t' = (ts ! k)\<lparr>i_pc := AtGuard\<rparr>"
      using stp AtUpdateRunning by (auto split: option.splits)
    have w: "active (world s') = active (world s)" using updateState_world[OF u] e by simp
    have ixk: "i_idx (ts ! k) < length (jobs (manager s))" using updateState_idx[OF u] .
    have g: "guarded (i_pc (ts' ! i)) = guarded (i_pc (ts ! i))" if "i < length ts" for i
      using that AtUpdateRunning e(2) by (cases "i = k") (simp_all add: ts')
    show ?thesis
      using guard_inv_same[OF inv lts g n w x] ixk by blast
  next
    case AtGuard
    show ?thesis
    proof (cases "i_name (ts ! k) \<in> active (world s)")
      case True
      have e: "s' = s" "t' = (ts ! k)\<lparr>i_pc := AtUpdateIdle (Some ErrSkipped)\<rparr>"
        using stp AtGuard True by auto
      have g: "guarded (i_pc (ts' ! i)) = guarded (i_pc (ts ! i))" if "i < length ts" for i
        using that AtGuard e(2) by (cases "i = k") (simp_all add: ts')
      have w: "active (world s') = active (world s)" using e by simp
      show ?thesis
        using guard_inv_same[OF inv lts g n w x] AtGuard by simp
    next
      case False
      have e: "s' = s\<lparr>world := (world s)\<lparr>active := insert (i_name (ts ! k)) (active (world s))\<rparr>\<rparr>"
        "t' = (ts ! k)\<lparr>i_pc := InBusiness\<rparr>"
        using stp AtGuard False by auto
      have a: "active (world s') = insert (i_name (ts ! k)) (active (world s))"
        by (simp add: e(1))
      have gk: "guarded (i_pc (ts' ! k))" using self e(2) by simp
      have nog: "\<not> guarded (i_pc (ts ! i))" if "i < length ts" "i_name (ts ! i) = i_name (ts ! k)" for i
        using I1[OF that(1)] that(2) False by auto
      show ?thesis
      proof (rule guard_invI)
        fix i assume i: "i < length ts'" "guarded (i_pc (ts' ! i))"
        show "i_name (ts' ! i) \<in> active (world s')"
        proof (cases "i = k")
          case True
          then show ?thesis using a n[OF k] by simp
        next
          case F: False
          then show ?thesis using i I1[of i] other[OF F] a lts by simp
        qed
      next
        fix m assume m: "m \<in> active (world s')"
        show "\<exists>i<length ts'. guarded (i_pc (ts' ! i)) \<and> i_name (ts' ! i) = m"
        proof (cases "m = i_name (ts ! k)")
          case True
          then show ?thesis using gk k lts n[OF k] by auto
        next
          case F: False
          then obtain i where i: "i < length ts" "guarded (i_pc (ts ! i))" "i_name (ts ! i) = m"
            using m a I2 by auto
          then have "i \<noteq> k" using AtGuard by auto
          then show ?thesis using i other lts by auto
        qed
      next
        fix i j assume ij: "i < length ts'" "j < length ts'" "guarded (i_pc (ts' ! i))"
          "guarded (i_pc (ts' ! j))" "i_name (ts' ! i) = i_name (ts' ! j)"
        show "i = j"
        proof (cases "i = k")
          case True
          show ?thesis
          proof (rule ccontr)
            assume "i \<noteq> j"
            then have jk: "j \<noteq> k" using True by simp
            have "guarded (i_pc (ts ! j))" using ij(4) other[OF jk] by simp
            moreover have "i_name (ts ! j) = i_name (ts ! k)"
              using ij(5) True n[OF k] n[of j] ij(2) lts by simp
            ultimately show False using nog[of j] ij(2) lts by simp
          qed
        next
          case F: False
          show ?thesis
          proof (cases "j = k")
            case True
            have "guarded (i_pc (ts ! i))" using ij(3) other[OF F] by simp
            moreover have "i_name (ts ! i) = i_name (ts ! k)"
              using ij(5) True n[OF k] n[of i] ij(1) lts by simp
            ultimately show ?thesis using nog[of i] ij(1) lts by simp
          next
            case F2: False
            show ?thesis
              using I3[of i j] ij other[OF F] other[OF F2] lts by simp
          qed
        qed
      next
        fix i assume "i < length ts'" "i_pc (ts' ! i) \<noteq> AtUpdateRunning"
        then show "i_idx (ts' ! i) < length (jobs (manager s'))"
          using x[of i] AtGuard lts by simp
      qed
    qed
  next
    case InBusiness
    have e: "s' = s" "t' = (ts ! k)\<lparr>i_pc := AtDeferred (i_result (ts ! k))\<rparr>"
      using stp InBusiness by auto
    have g: "guarded (i_pc (ts' ! i)) = guarded (i_pc (ts ! i))" if "i < length ts" for i
      using that InBusiness e(2) by (cases "i = k") (simp_all add: ts')
    have w: "active (world s') = active (world s)" using e by simp
    show ?thesis
      using guard_inv_same[OF inv lts g n w x] InBusiness by simp
  next
    case (AtDeferred r)
    have e: "s' = s\<lparr>world := (world s)\<lparr>active := active (world s) - {i_name (ts ! k)}\<rparr>\<rparr>"
      and ng: "\<not> guarded (i_pc t')"
      using stp AtDeferred by (auto split: outcome.splits)
    have a: "active (world s') = active (world s) - {i_name (ts ! k)}"
      by (simp add: e)
    have gk: "guarded (i_pc (ts ! k))" using AtDeferred by simp
    show ?thesis
    proof (rule guard_invI)
      fix i assume i: "i < length ts'" "guarded (i_pc (ts' ! i))"
      have ik: "i \<noteq> k" using i(2) self ng by auto
      have gi: "guarded (i_pc (ts ! i))" using i(2) other[OF ik] by simp
      have "i_name (ts ! i) \<noteq> i_name (ts ! k)"
        using I3[of i k] i(1) lts k gi gk ik by auto
      then show "i_name (ts' ! i) \<in> active (world s')"
        using I1[of i] i(1) lts gi a other[OF ik] by simp
    next
      fix m assume m: "m \<in> active (world s')"
      then obtain i where i: "i < length ts" "guarded (i_pc (ts ! i))" "i_name (ts ! i) = m"
        using a I2 by auto
      have "i \<noteq> k" using i(3) m a by auto
      then show "\<exists>i<length ts'. guarded (i_pc (ts' ! i)) \<and> i_name (ts' ! i) = m"
        using i other lts by auto
    next
      fix i j assume ij: "i < length ts'" "j < length ts'" "guarded (i_pc (ts' ! i))"
        "guarded (i_pc (ts' ! j))" "i_name (ts' ! i) = i_name (ts' ! j)"
      have ik: "i \<noteq> k" and jk: "j \<noteq> k" using ij(3,4) self ng by auto
      show "i = j"
        using I3[of i j] ij other[OF ik] other[OF jk] lts by simp
    next
      fix i assume "i < length ts'" "i_pc (ts' ! i) \<noteq> AtUpdateRunning"
      then show "i_idx (ts' ! i) < length (jobs (manager s'))"
        using x[of i] AtDeferred lts by simp
    qed
  next
    case (AtUpdateIdle e0)
    obtain s1 where u: "updateState (i_idx (ts ! k)) stateIdle e0 s = Some s1"
      and e: "s' = s1" "t' = (ts ! k)\<lparr>i_pc := Finished (Returned e0)\<rparr>"
      using stp AtUpdateIdle by (auto split: option.splits)
    have w: "active (world s') = active (world s)" using updateState_world[OF u] e by simp
    have g: "guarded (i_pc (ts' ! i)) = guarded (i_pc (ts ! i))" if "i < length ts" for i
      using that AtUpdateIdle e(2) by (cases "i = k") (simp_all add: ts')
    show ?thesis
      using guard_inv_same[OF inv lts g n w x] AtUpdateIdle by simp
  next
    case (Finished r)
    then show ?thesis using stp by simp
  qed
qed

lemma reachable_guard_inv:
  assumes "reachable st"
  shows "guard_inv st"
  using assms
proof (induction rule: reachable.induct)
  case (reachable_initial st)
  then show ?case by (rule guard_inv_initial)
next
  case (reachable_step st k st')
  then show ?case using guard_inv_step[of "fst st" "snd st" k "fst st'" "snd st'"] by simp
qed

lemma exec_reachable:
  assumes "reachable st" and "exec sched st = Some st'"
  shows "reachable st'"
  using assms
proof (induction sched arbitrary: st)
  case Nil
  then show ?case by simp
next
  case (Cons k ks)
  obtain st1 where s1: "step k st = Some st1" and r: "exec ks st1 = Some st'"
    using Cons.prems(2) by (auto split: option.splits)
  have "reachable st1" using Cons.prems(1) s1 by (rule reachable_step)
  then show ?case using Cons.IH r by blast
qed

lemma step_at:
  assumes "k < length ts" and "invocation_step (i_pc (ts ! k)) (ts ! k) s = Some (s', t')"
  shows "step k (s, ts) = Some (s', ts[k := t'])"
  using assms by (simp add: step_def)

lemma f1_twice_initial: "initial (guard_system, f1_twice)"
  by (simp add: initial_def guard_system_def test_system_def test_world_def f1_twice_def)

lemma guard_system_simps:
  "jobs (manager guard_system) =
     [newJob ''f1'' ''0 0 * * *'' newCronFunc False, newJob ''f2'' ''0 0 * * *'' newCronFunc False]"
  "world guard_system = test_world"
  "clock guard_system = test_clock"
  by (simp_all add: guard_system_def test_system_def test_manager_def Use_def AddFunc_def NewManager_def)

lemma f1_twice_exec:
  "map i_pc (snd (the (exec [0, 0, 1, 1, 1] (guard_system, f1_twice)))) =
     [InBusiness, Finished (Returned (Some ErrSkipped))]"
  "state (lastState (jobs (manager (fst (the (exec [0, 0, 1, 1, 1] (guard_system, f1_twice))))) ! 0)) = stateSkipped"
  "state (lastState (jobs (manager (fst (the (exec [0, 0] (guard_system, f1_twice))))) ! 0)) = stateRunning"
  by (simp_all add: step_def updateState_def guard_system_simps f1_twice_def newJob_def
        test_world_def test_clock_def time_Now_def time_Since_def errors_Is_def Let_def)

lemma f1_in_flight_exec: "exec [0, 0] (guard_system, f1_twice) = Some f1_in_flight"
  by (simp add: f1_in_flight_def step_def updateState_def guard_system_simps f1_twice_def newJob_def
        test_world_def test_clock_def time_Now_def time_Since_def errors_Is_def Let_def)

lemma f1_in_flight_reachable: "reachable f1_in_flight"
  using exec_reachable[OF reachable_initial[OF f1_twice_initial] f1_in_flight_exec] .

lemma f1_in_flight_threads:
  "length (snd f1_in_flight) = 2"
  "i_pc (snd f1_in_flight ! 0) = InBusiness"
  "i_pc (snd f1_in_flight ! Suc 0) = AtUpdateRunning"
  "i_name (snd f1_in_flight ! 0) = ''f1''"
  "i_name (snd f1_in_flight ! Suc 0) = ''f1''"
  "i_idx (snd f1_in_flight ! 0) = 0"
  "i_idx (snd f1_in_flight ! Suc 0) = 0"
  "state (lastState (jobs (manager (fst f1_in_flight)) ! 0)) = stateRunning"
  by (simp_all add: f1_in_flight_def step_def updateState_def guard_system_simps f1_twice_def newJob_def
        test_world_def test_clock_def time_Now_def time_Since_def errors_Is_def Let_def)

lemma f1_and_f2_initial: "initial (guard_system, f1_and_f2)"
  by (simp add: initial_def guard_system_simps test_world_def f1_and_f2_def)

lemma f2_at_guard_exec: "exec [0, 0, 1] (guard_system, f1_and_f2) = Some f2_at_guard"
  by (simp add: f2_at_guard_def step_def updateState_def guard_system_simps f1_and_f2_def newJob_def
        test_world_def test_clock_def time_Now_def time_Since_def errors_Is_def Let_def)

lemma f2_at_guard_reachable: "reachable f2_at_guard"
  using exec_reachable[OF reachable_initial[OF f1_and_f2_initial] f2_at_guard_exec] .

lemma f2_at_guard_threads:
  "length (snd f2_at_guard) = 2"
  "i_pc (snd f2_at_guard ! 0) = InBusiness"
  "i_pc (snd f2_at_guard ! Suc 0) = AtGuard"
  "i_name (snd f2_at_guard ! 0) = ''f1''"
  "i_name (snd f2_at_guard ! Suc 0) = ''f2''"
  by (simp_all add: f2_at_guard_def step_def updateState_def guard_system_simps f1_and_f2_def newJob_def
        test_world_def test_clock_def time_Now_def time_Since_def errors_Is_def Let_def)

lemma guard_step_enabled:
  assumes "k < length ts" and "i_pc (ts ! k) = AtGuard"
  shows "step k (s, ts) \<noteq> None"
  using assms by (simp add: step_def)

lemma guard_step_enters:
  assumes "guard_inv (s, ts)" and "k < length ts" and "i_pc (ts ! k) = AtGuard"
    and "\<forall>k' < length ts. guarded (i_pc (ts ! k')) \<longrightarrow> i_name (ts ! k') \<noteq> i_name (ts ! k)"
  shows "\<exists>s' ts'. step k (s, ts) = Some (s', ts') \<and> i_pc (ts' ! k) = InBusiness"
proof -
  have "i_name (ts ! k) \<notin> active (world s)"
    using assms(1,4) by (auto simp: guard_inv_def)
  then show ?thesis
    using assms(2,3) by (simp add: step_def)
qed

text \<open>
  The steps of one invocation, run without interruption, do what \<^verbatim>\<open>cronFnCtx\<close> does with
  \<^verbatim>\<open>WithSkipActive\<close> as the chain and a business function that only returns its outcome:
  same outcome, same final state.
\<close>

lemma closure_context_name:
  "NameFromContext (NewMaintenanceContext (NewNameContext ctx n) m) = n"
  by (simp add: NameFromContext_def NewMaintenanceContext_def NewNameContext_def
        nameKey_def maintenanceKey_def)

lemma closure_context_maintenance:
  "MaintenanceFromContext (NewMaintenanceContext (NewNameContext ctx n) m) = m"
  by (simp add: MaintenanceFromContext_def NewMaintenanceContext_def)

lemma steps_agree_skipped:
  assumes mw: "middleware (manager s) = [WithSkipActive]"
    and idx: "idx < length (jobs (manager s))"
    and act: "n \<in> active (world s)"
  shows "\<exists>s'. cronFnCtx (CronFnCtx idx n m f) ctx s = (Returned (Some ErrSkipped), s')
           \<and> exec [0, 0, 0] (s, [invoke (CronFnCtx idx n m f) r]) =
               Some (s', [\<lparr>i_idx = idx, i_name = n, i_result = r,
                            i_pc = Finished (Returned (Some ErrSkipped))\<rparr>])"
proof -
  obtain s1 where u1: "updateState idx stateRunning None s = Some s1"
    using updateState_in_range[OF idx] by blast
  have w1: "world s1 = world s" using updateState_world[OF u1] .
  have idx1: "idx < length (jobs (manager s1))" using idx updateState_length[OF u1] by simp
  obtain s2 where u2: "updateState idx stateIdle (Some ErrSkipped) s1 = Some s2"
    using updateState_in_range[OF idx1] by blast
  have act1: "n \<in> active (world s1)" using act w1 by simp
  have a: "cronFnCtx (CronFnCtx idx n m f) ctx s = (Returned (Some ErrSkipped), s2)"
    using u1 u2 act1
    by (simp add: mw Let_def WithSkipActive_def closure_context_name)
  have b: "exec [0, 0, 0] (s, [invoke (CronFnCtx idx n m f) r]) =
               Some (s2, [\<lparr>i_idx = idx, i_name = n, i_result = r,
                            i_pc = Finished (Returned (Some ErrSkipped))\<rparr>])"
    using u1 u2 act1 by (simp add: step_def)
  show ?thesis using a b by blast
qed

lemma steps_agree_returned:
  assumes mw: "middleware (manager s) = [WithSkipActive]"
    and idx: "idx < length (jobs (manager s))"
    and act: "n \<notin> active (world s)"
    and f: "\<And>c w. f c w = (Returned e, w)"
  shows "\<exists>s'. cronFnCtx (CronFnCtx idx n m f) ctx s = (Returned e, s')
           \<and> exec [0, 0, 0, 0, 0] (s, [invoke (CronFnCtx idx n m f) (Returned e)]) =
               Some (s', [\<lparr>i_idx = idx, i_name = n, i_result = Returned e,
                            i_pc = Finished (Returned e)\<rparr>])"
proof -
  obtain s1 where u1: "updateState idx stateRunning None s = Some s1"
    using updateState_in_range[OF idx] by blast
  have w1: "world s1 = world s" using updateState_world[OF u1] .
  have act1: "n \<notin> active (world s1)" using act w1 by simp
  let ?w3 = "(world s1)\<lparr>active := insert n (active (world s1)) - {n}\<rparr>"
  have idx1: "idx < length (jobs (manager (s1\<lparr>world := ?w3\<rparr>)))"
    using idx updateState_length[OF u1] by simp
  obtain s2 where u2: "updateState idx stateIdle e (s1\<lparr>world := ?w3\<rparr>) = Some s2"
    using updateState_in_range[OF idx1] by blast
  have a: "cronFnCtx (CronFnCtx idx n m f) ctx s = (Returned e, s2)"
    using u1 u2 act1 f
    by (simp add: mw Let_def WithSkipActive_def closure_context_name)
  have b: "exec [0, 0, 0, 0, 0] (s, [invoke (CronFnCtx idx n m f) (Returned e)]) =
               Some (s2, [\<lparr>i_idx = idx, i_name = n, i_result = Returned e,
                            i_pc = Finished (Returned e)\<rparr>])"
    using u1 u2 act1 by (simp add: step_def)
  show ?thesis using a b by blast
qed

lemma steps_agree_panicked:
  assumes mw: "middleware (manager s) = [WithSkipActive]"
    and idx: "idx < length (jobs (manager s))"
    and act: "n \<notin> active (world s)"
    and f: "\<And>c w. f c w = (Panicked p, w)"
  shows "\<exists>s'. cronFnCtx (CronFnCtx idx n m f) ctx s = (Panicked p, s')
           \<and> exec [0, 0, 0, 0] (s, [invoke (CronFnCtx idx n m f) (Panicked p)]) =
               Some (s', [\<lparr>i_idx = idx, i_name = n, i_result = Panicked p,
                            i_pc = Finished (Panicked p)\<rparr>])"
proof -
  obtain s1 where u1: "updateState idx stateRunning None s = Some s1"
    using updateState_in_range[OF idx] by blast
  have w1: "world s1 = world s" using updateState_world[OF u1] .
  have a: "\<exists>s'. cronFnCtx (CronFnCtx idx n m f) ctx s = (Panicked p, s')
     \<and> exec [0, 0, 0, 0] (s, [invoke (CronFnCtx idx n m f) (Panicked p)]) =
               Some (s', [\<lparr>i_idx = idx, i_name = n, i_result = Panicked p,
                            i_pc = Finished (Panicked p)\<rparr>])"
    using u1 act f
    by (simp add: mw Let_def WithSkipActive_def closure_context_name step_def w1)
  show ?thesis using a by blast
qed

section \<open>The guard under sequential and concurrent invocation\<close>

text \<open>
  C2. An invocation that enters \<^verbatim>\<open>WithSkipActive\<close> while its task name is in the active
  set returns \<^verbatim>\<open>ErrSkipped\<close> and leaves the state as it was, whatever the wrapped
  function is: the wrapped function is not called. Otherwise the wrapped function is called
  with the name inserted, its outcome (a nil error, an error, or a panic) is the outcome of
  the guard, and the state on exit is the state the wrapped function left with the name
  removed: the name is not in the active set on exit. The guard never waits: in every
  reachable state of the concurrent invocations, an invocation at the guard whose name no
  invocation in flight under the guard has enters its business function with its next step,
  whatever other names are active.
\<close>

theorem WithSkipActive_guard:
  "(NameFromContext ctx \<in> active w \<longrightarrow>
      WithSkipActive nxt ctx w = (Returned (Some ErrSkipped), w))
   \<and> (NameFromContext ctx \<notin> active w \<longrightarrow>
        fst (WithSkipActive nxt ctx w) =
          fst (nxt ctx (w\<lparr>active := insert (NameFromContext ctx) (active w)\<rparr>))
        \<and> NameFromContext ctx \<notin> active (snd (WithSkipActive nxt ctx w))
        \<and> snd (WithSkipActive nxt ctx w) =
            (snd (nxt ctx (w\<lparr>active := insert (NameFromContext ctx) (active w)\<rparr>)))
              \<lparr>active := active (snd (nxt ctx (w\<lparr>active := insert (NameFromContext ctx) (active w)\<rparr>)))
                          - {NameFromContext ctx}\<rparr>)
   \<and> (reachable (s, ts) \<and> k < length ts \<and> i_pc (ts ! k) = AtGuard
        \<and> (\<forall>k' < length ts. guarded (i_pc (ts ! k')) \<longrightarrow> i_name (ts ! k') \<noteq> i_name (ts ! k))
        \<longrightarrow> (\<exists>s' ts'. step k (s, ts) = Some (s', ts') \<and> i_pc (ts' ! k) = InBusiness))"
proof -
  have a: "NameFromContext ctx \<in> active w \<Longrightarrow>
      WithSkipActive nxt ctx w = (Returned (Some ErrSkipped), w)"
    by (simp add: WithSkipActive_def Let_def)
  have b: "NameFromContext ctx \<notin> active w \<Longrightarrow>
        fst (WithSkipActive nxt ctx w) =
          fst (nxt ctx (w\<lparr>active := insert (NameFromContext ctx) (active w)\<rparr>))
        \<and> NameFromContext ctx \<notin> active (snd (WithSkipActive nxt ctx w))
        \<and> snd (WithSkipActive nxt ctx w) =
            (snd (nxt ctx (w\<lparr>active := insert (NameFromContext ctx) (active w)\<rparr>)))
              \<lparr>active := active (snd (nxt ctx (w\<lparr>active := insert (NameFromContext ctx) (active w)\<rparr>)))
                          - {NameFromContext ctx}\<rparr>"
    by (simp add: WithSkipActive_def Let_def split: prod.splits)
  have c: "\<exists>s' ts'. step k (s, ts) = Some (s', ts') \<and> i_pc (ts' ! k) = InBusiness"
    if "reachable (s, ts)" "k < length ts" "i_pc (ts ! k) = AtGuard"
      "\<forall>k' < length ts. guarded (i_pc (ts ! k')) \<longrightarrow> i_name (ts ! k') \<noteq> i_name (ts ! k)"
    using guard_step_enters[OF reachable_guard_inv[OF that(1)] that(2,3,4)] .
  show ?thesis using a b c by blast
qed

theorem WithSkipActive_guard_witness:
  "NameFromContext f1_context \<in> active f1_active_world
   \<and> WithSkipActive panicking f1_context f1_active_world = (Returned (Some ErrSkipped), f1_active_world)
   \<and> NameFromContext f1_context \<notin> active test_world
   \<and> WithSkipActive panicking f1_context test_world = (Panicked ''job test panic'', test_world)
   \<and> reachable (fst f2_at_guard, snd f2_at_guard)
   \<and> 1 < length (snd f2_at_guard)
   \<and> i_pc (snd f2_at_guard ! 0) = InBusiness
   \<and> i_pc (snd f2_at_guard ! 1) = AtGuard
   \<and> (\<exists>s' ts'. step 1 (fst f2_at_guard, snd f2_at_guard) = Some (s', ts')
          \<and> i_pc (ts' ! 0) = InBusiness \<and> i_pc (ts' ! 1) = InBusiness)"
proof -
  have n: "NameFromContext f1_context = ''f1''"
    by (simp add: f1_context_def NameFromContext_def NewNameContext_def NewMaintenanceContext_def
          nameKey_def maintenanceKey_def)
  have h1: "NameFromContext f1_context \<in> active f1_active_world"
    by (simp add: n f1_active_world_def)
  have h2: "NameFromContext f1_context \<notin> active test_world"
    by (simp add: n test_world_def)
  have r: "reachable (fst f2_at_guard, snd f2_at_guard)"
    using f2_at_guard_reachable by simp
  have h3: "1 < length (snd f2_at_guard)" "i_pc (snd f2_at_guard ! 1) = AtGuard"
    by (simp_all add: f2_at_guard_threads)
  have h4: "\<forall>k' < length (snd f2_at_guard). guarded (i_pc (snd f2_at_guard ! k')) \<longrightarrow>
              i_name (snd f2_at_guard ! k') \<noteq> i_name (snd f2_at_guard ! 1)"
    by (simp add: f2_at_guard_threads less_Suc_eq numeral_2_eq_2)
  note g = WithSkipActive_guard[of f1_context _ panicking "fst f2_at_guard" "snd f2_at_guard" 1]
  have a: "WithSkipActive panicking f1_context f1_active_world = (Returned (Some ErrSkipped), f1_active_world)"
    using g[of f1_active_world] h1 by blast
  have "fst (WithSkipActive panicking f1_context test_world) =
          fst (panicking f1_context (test_world\<lparr>active := insert (NameFromContext f1_context) (active test_world)\<rparr>))"
    and "snd (WithSkipActive panicking f1_context test_world) =
            (snd (panicking f1_context (test_world\<lparr>active := insert (NameFromContext f1_context) (active test_world)\<rparr>)))
              \<lparr>active := active (snd (panicking f1_context (test_world\<lparr>active := insert (NameFromContext f1_context) (active test_world)\<rparr>)))
                          - {NameFromContext f1_context}\<rparr>"
    using g[of test_world] h2 by blast+
  then have b: "WithSkipActive panicking f1_context test_world = (Panicked ''job test panic'', test_world)"
    by (simp add: panicking_def test_world_def n prod_eq_iff)
  obtain s' ts' where st: "step 1 (fst f2_at_guard, snd f2_at_guard) = Some (s', ts')"
    and pc: "i_pc (ts' ! 1) = InBusiness"
    using g[of test_world] r h3 h4 by blast
  have "i_pc (ts' ! 0) = InBusiness"
    using st f2_at_guard_threads(2) by (elim step_SomeE) simp
  then show ?thesis
    using h1 a h2 b r h3 f2_at_guard_threads(2) st pc by blast
qed

text \<open>
  C1, as amended. Let an invocation of a task be in flight under the guard (its business
  function is executing), and let a second invocation of the same task run its steps before
  the first goes on. Then the second invocation returns \<^verbatim>\<open>ErrSkipped\<close> without entering
  its business function and the first is still in flight; but the state updates of the
  second invocation do overwrite the state record of the task: after its last update the
  record reads \<open>skipped\<close> with a nil error, while the first is still executing.
\<close>

theorem second_invocation_skipped:
  assumes reach: "reachable (s, ts)" and k: "k < length ts" and k': "k' < length ts"
    and first: "i_pc (ts ! k') = InBusiness"
    and second: "i_pc (ts ! k) = AtUpdateRunning"
    and same_name: "i_name (ts ! k) = i_name (ts ! k')"
    and same_idx: "i_idx (ts ! k) = i_idx (ts ! k')"
  shows "\<exists>s' ts'. exec [k, k, k] (s, ts) = Some (s', ts')
           \<and> i_pc (ts' ! k) = Finished (Returned (Some ErrSkipped))
           \<and> i_pc (ts' ! k') = InBusiness
           \<and> world s' = world s
           \<and> state (lastState (jobs (manager s') ! i_idx (ts ! k))) = stateSkipped
           \<and> err (lastState (jobs (manager s') ! i_idx (ts ! k))) = None"
proof -
  let ?t = "ts ! k"
  have inv: "guard_inv (s, ts)" using reachable_guard_inv[OF reach] .
  have kk: "k \<noteq> k'" using first second by auto
  have act: "i_name ?t \<in> active (world s)"
    using inv k' first same_name by (auto simp: guard_inv_def)
  have idx: "i_idx ?t < length (jobs (manager s))"
    using inv k' first same_idx by (auto simp: guard_inv_def)
  obtain s1 where u1: "updateState (i_idx ?t) stateRunning None s = Some s1"
    using updateState_in_range[OF idx] by blast
  have w1: "world s1 = world s" using updateState_world[OF u1] .
  have idx1: "i_idx ?t < length (jobs (manager s1))"
    using idx updateState_length[OF u1] by simp
  obtain s3 where u3: "updateState (i_idx ?t) stateIdle (Some ErrSkipped) s1 = Some s3"
    using updateState_in_range[OF idx1] by blast
  have w3: "world s3 = world s" using updateState_world[OF u3] w1 by simp
  let ?ts1 = "ts[k := ?t\<lparr>i_pc := AtGuard\<rparr>]"
  let ?ts2 = "?ts1[k := (?ts1 ! k)\<lparr>i_pc := AtUpdateIdle (Some ErrSkipped)\<rparr>]"
  let ?ts3 = "?ts2[k := (?ts2 ! k)\<lparr>i_pc := Finished (Returned (Some ErrSkipped))\<rparr>]"
  have st1: "step k (s, ts) = Some (s1, ?ts1)"
    using step_at[OF k, of s s1 "?t\<lparr>i_pc := AtGuard\<rparr>"] second u1 by simp
  have st2: "step k (s1, ?ts1) = Some (s1, ?ts2)"
    using step_at[of k ?ts1 s1 s1 "(?ts1 ! k)\<lparr>i_pc := AtUpdateIdle (Some ErrSkipped)\<rparr>"] k act w1
    by simp
  have st3: "step k (s1, ?ts2) = Some (s3, ?ts3)"
    using step_at[of k ?ts2 s1 s3 "(?ts2 ! k)\<lparr>i_pc := Finished (Returned (Some ErrSkipped))\<rparr>"] k u3
    by simp
  have ex: "exec [k, k, k] (s, ts) = Some (s3, ?ts3)"
    using st1 st2 st3 by simp
  have "i_pc (?ts3 ! k) = Finished (Returned (Some ErrSkipped))"
    using k by simp
  moreover have "i_pc (?ts3 ! k') = InBusiness"
    using kk first by simp
  moreover have "state (lastState (jobs (manager s3) ! i_idx ?t)) = stateSkipped"
    and "err (lastState (jobs (manager s3) ! i_idx ?t)) = None"
    using updateState_state[OF u3] by (simp_all add: errors_Is_def)
  ultimately show ?thesis using ex w3 by blast
qed

theorem second_invocation_skipped_witness:
  "reachable (fst f1_in_flight, snd f1_in_flight)
   \<and> 1 < length (snd f1_in_flight) \<and> 0 < length (snd f1_in_flight)
   \<and> i_pc (snd f1_in_flight ! 0) = InBusiness
   \<and> i_pc (snd f1_in_flight ! 1) = AtUpdateRunning
   \<and> i_name (snd f1_in_flight ! 1) = i_name (snd f1_in_flight ! 0)
   \<and> i_idx (snd f1_in_flight ! 1) = i_idx (snd f1_in_flight ! 0)
   \<and> state (lastState (jobs (manager (fst f1_in_flight)) ! 0)) = stateRunning
   \<and> (\<exists>s' ts'. exec [1, 1, 1] (fst f1_in_flight, snd f1_in_flight) = Some (s', ts')
          \<and> i_pc (ts' ! 1) = Finished (Returned (Some ErrSkipped))
          \<and> i_pc (ts' ! 0) = InBusiness
          \<and> state (lastState (jobs (manager s') ! 0)) = stateSkipped
          \<and> err (lastState (jobs (manager s') ! 0)) = None)"
proof -
  have r: "reachable (fst f1_in_flight, snd f1_in_flight)"
    using f1_in_flight_reachable by simp
  have h: "1 < length (snd f1_in_flight)" "0 < length (snd f1_in_flight)"
    "i_pc (snd f1_in_flight ! 0) = InBusiness"
    "i_pc (snd f1_in_flight ! 1) = AtUpdateRunning"
    "i_name (snd f1_in_flight ! 1) = i_name (snd f1_in_flight ! 0)"
    "i_idx (snd f1_in_flight ! 1) = i_idx (snd f1_in_flight ! 0)"
    by (simp_all add: f1_in_flight_threads)
  have "\<exists>s' ts'. exec [1, 1, 1] (fst f1_in_flight, snd f1_in_flight) = Some (s', ts')
          \<and> i_pc (ts' ! 1) = Finished (Returned (Some ErrSkipped))
          \<and> i_pc (ts' ! 0) = InBusiness
          \<and> world s' = world (fst f1_in_flight)
          \<and> state (lastState (jobs (manager s') ! i_idx (snd f1_in_flight ! 1))) = stateSkipped
          \<and> err (lastState (jobs (manager s') ! i_idx (snd f1_in_flight ! 1))) = None"
    using second_invocation_skipped[OF r h] .
  then have "\<exists>s' ts'. exec [1, 1, 1] (fst f1_in_flight, snd f1_in_flight) = Some (s', ts')
          \<and> i_pc (ts' ! 1) = Finished (Returned (Some ErrSkipped))
          \<and> i_pc (ts' ! 0) = InBusiness
          \<and> state (lastState (jobs (manager s') ! 0)) = stateSkipped
          \<and> err (lastState (jobs (manager s') ! 0)) = None"
    by (simp add: f1_in_flight_threads) blast
  then show ?thesis
    using r h f1_in_flight_threads(8) by blast
qed

text \<open>
  C1 as stated fails: with two invocations of \<^verbatim>\<open>f1\<close>, after the first has entered its
  business function the record reads \<open>running\<close>; after the second has run to its end the
  first is still in its business function, the second has returned \<^verbatim>\<open>ErrSkipped\<close>, and
  the record reads \<open>skipped\<close>.
\<close>

theorem second_invocation_counterexample:
  "initial (guard_system, f1_twice)
   \<and> state (lastState (jobs (manager (fst (the (exec [0, 0] (guard_system, f1_twice))))) ! 0)) = stateRunning
   \<and> map i_pc (snd (the (exec [0, 0, 1, 1, 1] (guard_system, f1_twice)))) =
       [InBusiness, Finished (Returned (Some ErrSkipped))]
   \<and> state (lastState (jobs (manager (fst (the (exec [0, 0, 1, 1, 1] (guard_system, f1_twice))))) ! 0))
       = stateSkipped"
  using f1_twice_initial f1_twice_exec by simp

section \<open>Properties of the maintenance gate\<close>

lemma count_update:
  assumes "k < length ts"
  shows "length (filter P (ts[k := t'])) + (if P (ts ! k) then 1 else 0) =
         length (filter P ts) + (if P t' then 1 else 0)"
  using assms
proof (induction ts arbitrary: k)
  case Nil
  then show ?case by simp
next
  case (Cons a ts)
  show ?case
  proof (cases k)
    case 0
    then show ?thesis by simp
  next
    case (Suc k')
    then show ?thesis using Cons.IH[of k'] Cons.prems by simp
  qed
qed

lemma count_same:
  assumes "k < length ts" and "P t' = P (ts ! k)"
  shows "length (filter P (ts[k := t'])) = length (filter P ts)"
  using count_update[OF assms(1), of P t'] assms(2) by simp

lemma count_pos:
  assumes "k < length ts" and "P (ts ! k)"
  shows "0 < length (filter P ts)"
proof -
  have "ts ! k \<in> set (filter P ts)" using assms by simp
  then show ?thesis by (rule length_pos_if_in_set)
qed

lemma count_two:
  assumes "k < k'" and "k' < length ts" and "P (ts ! k)" and "P (ts ! k')"
  shows "2 \<le> length (filter P ts)"
proof -
  have split: "ts = take k' ts @ drop k' ts" by simp
  have a: "0 < length (filter P (take k' ts))"
    using count_pos[of k "take k' ts" P] assms by simp
  have b: "0 < length (filter P (drop k' ts))"
    using count_pos[of 0 "drop k' ts" P] assms by simp
  have "length (filter P ts) = length (filter P (take k' ts)) + length (filter P (drop k' ts))"
    by (subst split) (simp only: filter_append length_append)
  then show ?thesis using a b by linarith
qed

lemma count_one_unique:
  assumes "length (filter P ts) \<le> 1" and "k < length ts" and "k' < length ts"
    and "P (ts ! k)" and "P (ts ! k')"
  shows "k = k'"
proof (rule ccontr)
  assume "k \<noteq> k'"
  then consider "k < k'" | "k' < k" by linarith
  then have "2 \<le> length (filter P ts)"
    using count_two[of k k' ts P] count_two[of k' k ts P] assms by cases auto
  then show False using assms(1) by simp
qed

lemma gate_inv_iff:
  "gate_inv (w, ts) \<longleftrightarrow>
     readers w = length (filter (\<lambda>t. \<not> g_isMaintenance t \<and> holds_lock (g_pc t)) ts)
     \<and> length (filter (\<lambda>t. g_isMaintenance t \<and> holds_lock (g_pc t)) ts) = (if writer w then 1 else 0)
     \<and> (writer w \<longrightarrow> readers w = 0)"
  unfolding gate_inv_def writers_holding_def readers_holding_def prod.case ..

lemma gate_step_SomeE:
  assumes "gate_step k (w, ts) = Some (w', ts')"
  obtains t' where "k < length ts"
    and "gate_invocation_step (g_pc (ts ! k)) (ts ! k) w = Some (w', t')"
    and "ts' = ts[k := t']"
  using assms by (auto simp: gate_step_def split: if_splits option.splits)

lemma gate_inv_initial:
  assumes "gate_initial st"
  shows "gate_inv st"
proof -
  obtain w ts where st: "st = (w, ts)" by (cases st)
  have all: "\<forall>t \<in> set ts. g_pc t = AtLock"
    using assms st by (simp add: gate_initial_def list_all_iff)
  have "filter (\<lambda>t. g_isMaintenance t \<and> holds_lock (g_pc t)) ts = []"
    and "filter (\<lambda>t. \<not> g_isMaintenance t \<and> holds_lock (g_pc t)) ts = []"
    using all by (simp_all add: filter_empty_conv)
  then show ?thesis
    using assms st by (simp add: gate_initial_def gate_inv_def writers_holding_def readers_holding_def)
qed

lemma gate_inv_step:
  assumes inv: "gate_inv (w, ts)" and st: "gate_step k (w, ts) = Some (w', ts')"
  shows "gate_inv (w', ts')"
proof -
  let ?W = "\<lambda>t. g_isMaintenance t \<and> holds_lock (g_pc t)"
  let ?R = "\<lambda>t. \<not> g_isMaintenance t \<and> holds_lock (g_pc t)"
  obtain t' where k: "k < length ts"
    and stp: "gate_invocation_step (g_pc (ts ! k)) (ts ! k) w = Some (w', t')"
    and ts': "ts' = ts[k := t']"
    using st by (rule gate_step_SomeE)
  have "readers w = length (filter ?R ts)
        \<and> length (filter ?W ts) = (if writer w then 1 else 0)
        \<and> (writer w \<longrightarrow> readers w = 0)"
    using inv[unfolded gate_inv_iff] .
  then have R: "readers w = length (filter ?R ts)"
    and W: "length (filter ?W ts) = (if writer w then 1 else 0)"
    and X: "writer w \<Longrightarrow> readers w = 0"
    by blast+
  note cw = count_update[OF k, of ?W t']
  note cr = count_update[OF k, of ?R t']
  show ?thesis
  proof (cases "g_pc (ts ! k)")
    case AtLock
    show ?thesis
    proof (cases "g_isMaintenance (ts ! k)")
      case True
      have e: "\<not> writer w" "readers w = 0" "w' = w\<lparr>writer := True\<rparr>" "t' = (ts ! k)\<lparr>g_pc := Executing\<rparr>"
        using stp AtLock True by (auto split: if_splits)
      show ?thesis
        unfolding gate_inv_def writers_holding_def readers_holding_def ts'
        using cw cr R W e AtLock True by simp
    next
      case False
      have e: "\<not> writer w" "w' = w\<lparr>readers := readers w + 1\<rparr>" "t' = (ts ! k)\<lparr>g_pc := Executing\<rparr>"
        using stp AtLock False by (auto split: if_splits)
      show ?thesis
        unfolding gate_inv_def writers_holding_def readers_holding_def ts'
        using cw cr R W e AtLock False by simp
    qed
  next
    case Executing
    have e: "w' = w" "g_isMaintenance t' = g_isMaintenance (ts ! k)" "holds_lock (g_pc t')"
      using stp Executing by (auto split: outcome.splits)
    show ?thesis
      unfolding gate_inv_def writers_holding_def readers_holding_def ts'
      using cw cr R W X e Executing by simp
  next
    case (AtUnlock e0)
    show ?thesis
    proof (cases "g_isMaintenance (ts ! k)")
      case True
      have e: "writer w" "w' = w\<lparr>writer := False\<rparr>" "t' = (ts ! k)\<lparr>g_pc := Left (Returned e0)\<rparr>"
        using stp AtUnlock True by (auto split: if_splits)
      show ?thesis
        unfolding gate_inv_def writers_holding_def readers_holding_def ts'
        using cw cr R W X e AtUnlock True by simp
    next
      case False
      have e: "0 < readers w" "w' = w\<lparr>readers := readers w - 1\<rparr>"
        "t' = (ts ! k)\<lparr>g_pc := Left (Returned e0)\<rparr>"
        using stp AtUnlock False by (auto split: if_splits)
      show ?thesis
        unfolding gate_inv_def writers_holding_def readers_holding_def ts'
        using cw cr R W X e AtUnlock False by auto
    qed
  next
    case (Left r)
    then show ?thesis using stp by simp
  qed
qed

lemma gate_reachable_inv:
  assumes "gate_reachable st"
  shows "gate_inv st"
  using assms
proof (induction rule: gate_reachable.induct)
  case (gate_reachable_initial st)
  then show ?case by (rule gate_inv_initial)
next
  case (gate_reachable_step st k st')
  then show ?case using gate_inv_step[of "fst st" "snd st" k "fst st'" "snd st'"] by simp
qed

lemma gate_exec_reachable:
  assumes "gate_reachable st" and "gate_exec sched st = Some st'"
  shows "gate_reachable st'"
  using assms
proof (induction sched arbitrary: st)
  case Nil
  then show ?case by simp
next
  case (Cons k ks)
  obtain st1 where s1: "gate_step k st = Some st1" and r: "gate_exec ks st1 = Some st'"
    using Cons.prems(2) by (auto split: option.splits)
  have "gate_reachable st1" using Cons.prems(1) s1 by (rule gate_reachable_step)
  then show ?case using Cons.IH r by blast
qed

lemma gate_exclusive:
  assumes inv: "gate_inv (w, ts)" and k: "executing ts k" and m: "g_isMaintenance (ts ! k)"
    and k': "executing ts k'"
  shows "k' = k"
proof -
  let ?W = "\<lambda>t. g_isMaintenance t \<and> holds_lock (g_pc t)"
  let ?R = "\<lambda>t. \<not> g_isMaintenance t \<and> holds_lock (g_pc t)"
  have "readers w = length (filter ?R ts)
        \<and> length (filter ?W ts) = (if writer w then 1 else 0)
        \<and> (writer w \<longrightarrow> readers w = 0)"
    using inv[unfolded gate_inv_iff] .
  then have R: "readers w = length (filter ?R ts)"
    and W: "length (filter ?W ts) = (if writer w then 1 else 0)"
    and X: "writer w \<Longrightarrow> readers w = 0"
    by blast+
  have kl: "k < length ts" "k' < length ts" and hk: "holds_lock (g_pc (ts ! k))"
    and hk': "holds_lock (g_pc (ts ! k'))"
    using k k' by (simp_all add: executing_def)
  have "0 < length (filter ?W ts)"
    using count_pos[of k ts ?W] kl hk m by simp
  then have wr: "writer w" using W by (simp split: if_splits)
  have noR: "length (filter ?R ts) = 0" using X[OF wr] R by simp
  have mk': "g_isMaintenance (ts ! k')"
  proof (rule ccontr)
    assume "\<not> g_isMaintenance (ts ! k')"
    then have "0 < length (filter ?R ts)"
      using count_pos[of k' ts ?R] kl hk' by simp
    then show False using noR by simp
  qed
  have "length (filter ?W ts) \<le> 1" using W by simp
  then show ?thesis
    using count_one_unique[of ?W ts k' k] kl hk hk' m mk' by simp
qed

lemma gate_readers_together:
  assumes init: "gate_initial (w, ts)" and k: "k < length ts" and k': "k' < length ts"
    and ne: "k \<noteq> k'" and nm: "\<not> g_isMaintenance (ts ! k)" and nm': "\<not> g_isMaintenance (ts ! k')"
  shows "\<exists>w' ts'. gate_exec [k, k'] (w, ts) = Some (w', ts') \<and> executing ts' k \<and> executing ts' k'"
proof -
  have pcs: "g_pc (ts ! k) = AtLock" "g_pc (ts ! k') = AtLock" and free: "\<not> writer w"
    using init k k' by (simp_all add: gate_initial_def list_all_length)
  let ?w1 = "w\<lparr>readers := readers w + 1\<rparr>"
  let ?ts1 = "ts[k := (ts ! k)\<lparr>g_pc := Executing\<rparr>]"
  let ?w2 = "?w1\<lparr>readers := readers ?w1 + 1\<rparr>"
  let ?ts2 = "?ts1[k' := (?ts1 ! k')\<lparr>g_pc := Executing\<rparr>]"
  have s1: "gate_step k (w, ts) = Some (?w1, ?ts1)"
    using k pcs nm free by (simp add: gate_step_def)
  have s2: "gate_step k' (?w1, ?ts1) = Some (?w2, ?ts2)"
    using k' pcs nm' free ne by (simp add: gate_step_def)
  have "gate_exec [k, k'] (w, ts) = Some (?w2, ?ts2)"
    using s1 s2 by simp
  moreover have "executing ?ts2 k" "executing ?ts2 k'"
    using k k' ne by (simp_all add: executing_def)
  ultimately show ?thesis by blast
qed

lemma gate_three_initial: "gate_initial (test_world, gate_three)"
  by (simp add: gate_initial_def test_world_def gate_three_def)

lemma f3_executing_exec: "gate_exec [0] (test_world, gate_three) = Some f3_executing"
  by (simp add: f3_executing_def gate_step_def gate_three_def test_world_def)

lemma f3_executing_reachable: "gate_reachable f3_executing"
  using gate_exec_reachable[OF gate_reachable_initial[OF gate_three_initial] f3_executing_exec] .

lemma f3_executing_facts:
  "executing (snd f3_executing) 0"
  "g_isMaintenance (snd f3_executing ! 0)"
  "\<not> executing (snd f3_executing) 1"
  "\<not> executing (snd f3_executing) 2"
  "gate_step 1 f3_executing = None"
  "gate_step 2 f3_executing = None"
  by (simp_all add: f3_executing_def gate_step_def gate_three_def test_world_def executing_def)

lemma gate_three_facts:
  "length gate_three = 3"
  "\<not> g_isMaintenance (gate_three ! 1)"
  "\<not> g_isMaintenance (gate_three ! 2)"
  by (simp_all add: gate_three_def)

section \<open>Exclusion at the maintenance gate\<close>

text \<open>
  C3. In every state that concurrent invocations of the maintenance gate can reach, when the
  business function of a maintenance invocation is executing, no other invocation's business
  function is executing, be it of a maintenance task or not. Invocations of tasks that are
  not maintenance tasks can execute together: from the start, two of them take the shared
  hold one after the other and both execute.
\<close>

theorem maintenance_exclusive:
  "(gate_reachable (w, ts) \<and> executing ts k \<and> g_isMaintenance (ts ! k) \<and> executing ts k'
      \<longrightarrow> k' = k)
   \<and> (gate_initial (w, ts) \<and> k < length ts \<and> k' < length ts \<and> k \<noteq> k'
       \<and> \<not> g_isMaintenance (ts ! k) \<and> \<not> g_isMaintenance (ts ! k')
      \<longrightarrow> (\<exists>w' ts'. gate_exec [k, k'] (w, ts) = Some (w', ts')
                \<and> gate_reachable (w', ts') \<and> executing ts' k \<and> executing ts' k'))"
proof -
  have a: "k' = k"
    if "gate_reachable (w, ts)" "executing ts k" "g_isMaintenance (ts ! k)" "executing ts k'"
    using gate_exclusive[OF gate_reachable_inv[OF that(1)] that(2,3,4)] .
  have b: "\<exists>w' ts'. gate_exec [k, k'] (w, ts) = Some (w', ts')
                \<and> gate_reachable (w', ts') \<and> executing ts' k \<and> executing ts' k'"
    if init: "gate_initial (w, ts)" and rest: "k < length ts" "k' < length ts" "k \<noteq> k'"
      "\<not> g_isMaintenance (ts ! k)" "\<not> g_isMaintenance (ts ! k')"
  proof -
    obtain w' ts' where ex: "gate_exec [k, k'] (w, ts) = Some (w', ts')"
      and e: "executing ts' k" "executing ts' k'"
      using gate_readers_together[OF init rest] by blast
    have "gate_reachable (w', ts')"
      using gate_exec_reachable[OF gate_reachable_initial[OF init] ex] .
    then show ?thesis using ex e by blast
  qed
  show ?thesis using a b by blast
qed

theorem maintenance_exclusive_witness:
  "gate_reachable (fst f3_executing, snd f3_executing)
   \<and> executing (snd f3_executing) 0 \<and> g_isMaintenance (snd f3_executing ! 0)
   \<and> \<not> executing (snd f3_executing) 1 \<and> \<not> executing (snd f3_executing) 2
   \<and> gate_step 1 f3_executing = None
   \<and> gate_initial (test_world, gate_three)
   \<and> 1 < length gate_three \<and> 2 < length gate_three
   \<and> \<not> g_isMaintenance (gate_three ! 1) \<and> \<not> g_isMaintenance (gate_three ! 2)
   \<and> (\<exists>w' ts'. gate_exec [1, 2] (test_world, gate_three) = Some (w', ts')
          \<and> gate_reachable (w', ts') \<and> executing ts' 1 \<and> executing ts' 2)"
proof -
  have r: "gate_reachable (fst f3_executing, snd f3_executing)"
    using f3_executing_reachable by simp
  have h: "1 < length gate_three" "2 < length gate_three" "(1::nat) \<noteq> 2"
    by (simp_all add: gate_three_facts)
  have "\<exists>w' ts'. gate_exec [1, 2] (test_world, gate_three) = Some (w', ts')
          \<and> gate_reachable (w', ts') \<and> executing ts' 1 \<and> executing ts' 2"
    using maintenance_exclusive[of test_world gate_three 1 2]
      gate_three_initial h gate_three_facts(2,3) by blast
  then show ?thesis
    using r f3_executing_facts gate_three_initial h gate_three_facts(2,3) by blast
qed

section \<open>Further properties\<close>

text \<open>
  At most one invocation per task name is in flight under the guard: in every reachable state
  of the concurrent invocations, when an invocation is between its insertion into the active
  set and its deferred removal, no other invocation of the same name is.
\<close>

theorem guard_at_most_one:
  assumes "reachable (s, ts)" and "k < length ts" and "k' < length ts" and "k \<noteq> k'"
    and "i_name (ts ! k) = i_name (ts ! k')" and "guarded (i_pc (ts ! k))"
  shows "\<not> guarded (i_pc (ts ! k'))"
  using reachable_guard_inv[OF assms(1)] assms(2-6)
  unfolding guard_inv_def prod.case by blast

theorem guard_at_most_one_witness:
  "reachable (fst f1_in_flight, snd f1_in_flight)
   \<and> 0 < length (snd f1_in_flight) \<and> 1 < length (snd f1_in_flight) \<and> (0::nat) \<noteq> 1
   \<and> i_name (snd f1_in_flight ! 0) = i_name (snd f1_in_flight ! 1)
   \<and> guarded (i_pc (snd f1_in_flight ! 0))
   \<and> \<not> guarded (i_pc (snd f1_in_flight ! 1))"
proof -
  have r: "reachable (fst f1_in_flight, snd f1_in_flight)"
    using f1_in_flight_reachable by simp
  have h: "0 < length (snd f1_in_flight)" "1 < length (snd f1_in_flight)" "(0::nat) \<noteq> 1"
    "i_name (snd f1_in_flight ! 0) = i_name (snd f1_in_flight ! 1)"
    "guarded (i_pc (snd f1_in_flight ! 0))"
    by (simp_all add: f1_in_flight_threads)
  show ?thesis
    using r h guard_at_most_one[OF r h] by blast
qed

text \<open>
  When validation fails at a job whose name is not empty, \<^verbatim>\<open>Run\<close> returns an error that
  wraps the error of validation and leaves the whole state as it was: no job is registered
  with the scheduler and the scheduler is not started.
\<close>

theorem Run_named_failure:
  assumes "validateJobs parse toLower (manager s) = (n, Some e)" and "n \<noteq> []"
  shows "\<exists>e'. Run parse toLower nextFire ctx s = (Returned (Some e'), s) \<and> errors_Is (Some e') e"
proof -
  have "Run parse toLower nextFire ctx s = (Returned (Some (Errorf_validate (Some e) n)), s)"
    using assms by (simp add: Run_def)
  moreover have "errors_Is (Some (Errorf_validate (Some e) n)) e"
    by (cases e) (simp_all add: errors_Is_def Errorf_validate_def)
  ultimately show ?thesis by blast
qed

theorem Run_named_failure_witness:
  "validateJobs test_parse ascii_ToLower (manager \<lparr>manager = case_manager, world = test_world, clock = test_clock\<rparr>)
     = (''F1'', Some ErrDuplicate)
   \<and> ''F1'' \<noteq> []
   \<and> (\<exists>e'. Run test_parse ascii_ToLower test_next Map.empty \<lparr>manager = case_manager, world = test_world, clock = test_clock\<rparr>
              = (Returned (Some e'), \<lparr>manager = case_manager, world = test_world, clock = test_clock\<rparr>)
            \<and> errors_Is (Some e') ErrDuplicate)"
proof -
  have low: "ascii_ToLower ''F1'' = ''f1''" "ascii_ToLower ''f1'' = ''f1''"
    by code_simp+
  have h1: "validateJobs test_parse ascii_ToLower (manager \<lparr>manager = case_manager, world = test_world, clock = test_clock\<rparr>)
     = (''F1'', Some ErrDuplicate)"
    by (simp add: validateJobs_def case_manager_def AddFunc_def NewManager_def newJob_def
          test_parse_def low IsActive_def)
  have h2: "''F1'' \<noteq> []" by simp
  show ?thesis
    using h1 h2 Run_named_failure[OF h1 h2, where nextFire=test_next and ctx=Map.empty] by blast
qed

end
